theory Spec2Isabelle
  imports Main "HOL-Library.AList"
begin

section \<open>Data model of readkr.py\<close>

text \<open>
  Python 2 byte strings are modelled as \<open>string\<close> (lists of 8-bit characters).
  Every raise of the source is a value of \<open>error\<close>: a failed \<^verbatim>\<open>assert\<close> is
  \<open>AssertionError n\<close> with \<open>n\<close> the line of the assert statement in readkr.py, the two
  \<^verbatim>\<open>raise "..."\<close> statements are \<open>Raised\<close> with the operand of the raise (an
  interpreter that has no string exceptions raises a TypeError at the same place), and
  the failures of indexing and of dictionary lookup keep Python's names. The limit of
  the interpreter on the depth of recursion is not modelled.
\<close>

datatype error =
    AssertionError nat
  | Raised string
  | IndexError
  | KeyError string
  | TypeError

text \<open>
  class Node: a value and an ordered list of children. The attribute \<^verbatim>\<open>parent\<close> that
  descent sets at line 66 is never read and is left out.
\<close>

datatype node = Node (nvalue: string) (children: "node list")

text \<open>class KRCode: the stem, one node per chain position, and the decorator groups.\<close>

record krcode =
  stem :: string
  krNodes :: "node list"
  kepzos :: "node list list"

section \<open>String primitives\<close>

text \<open>\<^verbatim>\<open>s.find(c)\<close> for a one-character needle: the first index, or -1.\<close>

definition str_find :: "string \<Rightarrow> char \<Rightarrow> int" where
  "str_find s c =
     (if c \<in> set s then int (length (takeWhile (\<lambda>x. x \<noteq> c) s)) else - 1)"

text \<open>\<^verbatim>\<open>s.split(c)\<close> for a one-character separator: never the empty list.\<close>

fun split :: "char \<Rightarrow> string \<Rightarrow> string list" where
  "split c [] = [[]]"
| "split c (x # xs) =
     (if x = c then [] # split c xs
      else (case split c xs of
              [] \<Rightarrow> [[x]]
            | y # ys \<Rightarrow> (x # y) # ys))"

section \<open>Rendering\<close>

text \<open>Node.__str__ (line 32).\<close>

fun node_str :: "node \<Rightarrow> string" where
  "node_str (Node v cs) = v @ concat (map (\<lambda>p. ''<'' @ node_str p @ ''>'') cs)"

text \<open>
  KRCode.__str__ (lines 42-54). The assert of line 45 is the only way it can raise;
  the loop over \<^verbatim>\<open>range(n)\<close> is the map over \<open>[0..<n]\<close>.
\<close>

definition KRCode_str :: "krcode \<Rightarrow> error + string" where
  "KRCode_str k =
     (let n = length (krNodes k) in
      if int n - int (length (kepzos k)) \<notin> {0, 1} then Inl (AssertionError 45)
      else Inr (stem k @ ''/'' @
        concat (map (\<lambda>i.
            node_str (krNodes k ! i)
            @ (if i < length (kepzos k)
               then concat (map (\<lambda>g. ''['' @ node_str g @ '']'') (kepzos k ! i))
               else [])
            @ (if int i < int n - 1 then ''/'' else []))
          [0..<n])))"

section \<open>The tree parser\<close>

text \<open>
  Lines 73-80 of descent: the offset of the nearer of the next \<^verbatim>\<open><\<close> and the next
  \<^verbatim>\<open>>\<close> at or after \<open>pos\<close>, the end of the string when neither occurs.
\<close>

definition nextPos :: "string \<Rightarrow> nat \<Rightarrow> nat" where
  "nextPos code pos =
     (let l = str_find (drop pos code) CHR ''<'';
          r = str_find (drop pos code) CHR ''>'';
          mx = int (length code) - int pos;
          l = (if l = - 1 then mx else l);
          r = (if r = - 1 then mx else r)
      in pos + nat (min l r))"

text \<open>
  descent (lines 59-84). The source mutates \<^verbatim>\<open>leaf\<close> in place and returns the
  offset; the model returns the offset together with the updated leaf. Reading
  \<^verbatim>\<open>code[pos]\<close> beyond the end raises IndexError.
\<close>

function descent :: "string \<Rightarrow> nat \<Rightarrow> node \<Rightarrow> error + nat \<times> node" where
  "descent code pos leaf =
     (if pos = length code then Inr (pos, leaf)
      else if length code < pos then Inl IndexError
      else if code ! pos = CHR ''<'' then
        (if nvalue leaf = [] then Inl (AssertionError 64)
         else (case descent code (pos + 1) (Node [] []) of
                 Inl e \<Rightarrow> Inl e
               | Inr (pos', newLeaf) \<Rightarrow>
                   descent code pos' (Node (nvalue leaf) (children leaf @ [newLeaf]))))
      else if code ! pos = CHR ''>'' then Inr (pos + 1, leaf)
      else
        (if nvalue leaf \<noteq> [] then Inl (AssertionError 81)
         else descent code (nextPos code pos)
                (Node (take (nextPos code pos - pos) (drop pos code)) (children leaf))))"
  by pat_completeness auto


text \<open>
  The recursion of descent is nested (the offset of the second call is the result of
  the first), so its termination needs the fact that a returned offset is never
  smaller than the offset given. The measure is \<open>length code - pos\<close>.
\<close>

lemma takeWhile_neq_less: "c \<in> set s \<Longrightarrow> length (takeWhile (\<lambda>x. x \<noteq> c) s) < length s"
  by (induction s) auto

lemma str_find_range:
  "str_find s c = - 1 \<or> (0 \<le> str_find s c \<and> str_find s c < int (length s))"
  unfolding str_find_def by (auto simp: takeWhile_neq_less)

lemma str_find_first:
  "s \<noteq> [] \<Longrightarrow> hd s \<noteq> c \<Longrightarrow> str_find s c = - 1 \<or> 1 \<le> str_find s c"
  unfolding str_find_def by (cases s) auto

lemma nextPos_bounds:
  assumes "pos < length code" "code ! pos \<noteq> CHR ''<''" "code ! pos \<noteq> CHR ''>''"
  shows "pos < nextPos code pos \<and> nextPos code pos \<le> length code"
proof -
  have ne: "drop pos code \<noteq> []" using assms(1) by simp
  have h: "hd (drop pos code) = code ! pos" using assms(1) by (simp add: hd_drop_conv_nth)
  have len: "int (length (drop pos code)) = int (length code) - int pos"
    using assms(1) by simp
  from str_find_first[OF ne, of "CHR ''<''"] str_find_range[of "drop pos code" "CHR ''<''"]
       str_find_first[OF ne, of "CHR ''>''"] str_find_range[of "drop pos code" "CHR ''>''"]
       h assms len
  show ?thesis unfolding nextPos_def Let_def by (auto simp: min_def)
qed

lemma descent_pos_le_dom:
  "descent_dom (code, pos, leaf) \<Longrightarrow> descent code pos leaf = Inr (p, l) \<Longrightarrow> pos \<le> p"
proof (induction code pos leaf arbitrary: p l rule: descent.pinduct)
  case (1 code pos leaf)
  note eq = descent.psimps[OF "1.hyps"]
  show ?case
  proof (cases "pos = length code")
    case True
    with "1.prems" eq show ?thesis by simp
  next
    case ne: False
    show ?thesis
    proof (cases "length code < pos")
      case True
      with "1.prems" eq ne show ?thesis by simp
    next
      case False
      with ne have lt: "pos < length code" by simp
      show ?thesis
      proof (cases "code ! pos = CHR ''<''")
        case True
        show ?thesis
        proof (cases "nvalue leaf = []")
          case True
          with "1.prems" eq ne lt \<open>code ! pos = CHR ''<''\<close> show ?thesis by simp
        next
          case nv: False
          from "1.prems" eq ne lt True nv obtain p1 l1 where
            r1: "descent code (pos + 1) (Node [] []) = Inr (p1, l1)" and
            r2: "descent code p1 (Node (nvalue leaf) (children leaf @ [l1])) = Inr (p, l)"
            by (auto split: sum.splits prod.splits)
          have "pos + 1 \<le> p1" using "1.IH"(1)[OF ne _ True nv r1] lt by simp
          moreover have "p1 \<le> p" using "1.IH"(2)[OF ne _ True nv r1 refl r2] lt by simp
          ultimately show ?thesis by simp
        qed
      next
        case nl: False
        show ?thesis
        proof (cases "code ! pos = CHR ''>''")
          case True
          with "1.prems" eq ne lt nl show ?thesis by auto
        next
          case ng: False
          have nb: "pos < nextPos code pos" using nextPos_bounds[OF lt nl ng] by simp
          from "1.prems" eq ne lt nl ng have
            nv: "nvalue leaf = []" and
            r: "descent code (nextPos code pos)
                  (Node (take (nextPos code pos - pos) (drop pos code)) (children leaf))
                = Inr (p, l)"
            by (auto split: if_splits)
          have "nextPos code pos \<le> p"
            using "1.IH"(3)[OF ne _ nl ng _ r] lt nv by simp
          with nb show ?thesis by simp
        qed
      qed
    qed
  qed
qed

termination descent
proof (relation "measure (\<lambda>(code, pos, leaf). length code - pos)", goal_cases)
  case 1
  then show ?case by simp
next
  case (2 code pos leaf)
  then show ?case by simp
next
  case (3 code pos leaf b x y)
  then show ?case using descent_pos_le_dom[of code "pos + 1" "Node [] []" x y] by auto
next
  case (4 code pos leaf)
  then have "pos < length code" by simp
  from nextPos_bounds[OF this] 4 show ?case by auto
qed

declare descent.simps [simp del]

text \<open>
  The same body with the depth of the recursion bounded: each call passes one unit of
  fuel less to the calls it makes, and \<open>None\<close> says that the bound was reached before
  descent returned.
\<close>

fun descent_fuel :: "nat \<Rightarrow> string \<Rightarrow> nat \<Rightarrow> node \<Rightarrow> (error + nat \<times> node) option" where
  "descent_fuel 0 code pos leaf = None"
| "descent_fuel (Suc fuel) code pos leaf =
     (if pos = length code then Some (Inr (pos, leaf))
      else if length code < pos then Some (Inl IndexError)
      else if code ! pos = CHR ''<'' then
        (if nvalue leaf = [] then Some (Inl (AssertionError 64))
         else (case descent_fuel fuel code (pos + 1) (Node [] []) of
                 None \<Rightarrow> None
               | Some (Inl e) \<Rightarrow> Some (Inl e)
               | Some (Inr (pos', newLeaf)) \<Rightarrow>
                   descent_fuel fuel code pos'
                     (Node (nvalue leaf) (children leaf @ [newLeaf]))))
      else if code ! pos = CHR ''>'' then Some (Inr (pos + 1, leaf))
      else
        (if nvalue leaf \<noteq> [] then Some (Inl (AssertionError 81))
         else descent_fuel fuel code (nextPos code pos)
                (Node (take (nextPos code pos - pos) (drop pos code)) (children leaf))))"

text \<open>
  analyzeKR (lines 94-107). The handler of line 104 catches every exception, writes
  one line to standard error and raises it again. A result is the pair of the lines
  written to standard error (each without its final newline) and the outcome.
\<close>

definition analyzeKR :: "string \<Rightarrow> string list \<times> (error + node)" where
  "analyzeKR code =
     (case descent code 0 (Node [] []) of
        Inl e \<Rightarrow> ([''Invalid KR: '' @ code], Inl e)
      | Inr (pos, root) \<Rightarrow>
          if pos \<noteq> length code then ([''Invalid KR: '' @ code], Inl (AssertionError 98))
          else ([], Inr root))"

section \<open>The constituent parser\<close>

text \<open>The three states of the hand-written automaton of lines 157-194.\<close>

datatype state = START | OUT | IN

text \<open>Lines 179-187: the characters a decorator may hold.\<close>

definition kepzo_char_ok :: "char \<Rightarrow> bool" where
  "kepzo_char_ok c =
     (((of_char CHR ''A'' :: nat) \<le> of_char c \<and> (of_char c :: nat) \<le> of_char CHR ''Z'')
      \<or> ((of_char CHR ''0'' :: nat) \<le> of_char c \<and> (of_char c :: nat) \<le> of_char CHR ''9'')
      \<or> c = CHR ''_'' \<or> c = CHR ''-''
      \<or> c = CHR ''<'' \<or> c = CHR ''>'')"

text \<open>
  The while loop of lines 161-194 over the characters of one part, from the state,
  the buffer \<^verbatim>\<open>kepzo\<close> and the group \<^verbatim>\<open>kepzoGroup\<close> reached so far; it returns the
  final state and group.
\<close>

fun scan :: "state \<Rightarrow> string \<Rightarrow> node list \<Rightarrow> string \<Rightarrow> string list \<times> (error + state \<times> node list)"
  where
  "scan st kepzo kepzoGroup [] = ([], Inr (st, kepzoGroup))"
| "scan START kepzo kepzoGroup (c # cs) =
     (if c = CHR '']'' then ([], Inl (AssertionError 164))
      else if c = CHR ''['' then scan IN [] kepzoGroup cs
      else scan START kepzo kepzoGroup cs)"
| "scan IN kepzo kepzoGroup (c # cs) =
     (if c = CHR ''['' then ([], Inl (AssertionError 169))
      else if c = CHR '']'' then
        (case analyzeKR kepzo of
           (log, Inl e) \<Rightarrow> (log, Inl e)
         | (log, Inr parsedKepzo) \<Rightarrow>
             (case scan OUT [] (kepzoGroup @ [parsedKepzo]) cs of
                (log', r) \<Rightarrow> (log @ log', r)))
      else if \<not> kepzo_char_ok c then ([], Inl (Raised ''data error''))
      else scan IN (kepzo @ [c]) kepzoGroup cs)"
| "scan OUT kepzo kepzoGroup (c # cs) =
     (if c \<noteq> CHR ''['' then ([], Inl (AssertionError 192))
      else scan IN kepzo kepzoGroup cs)"

text \<open>
  The body of the for loop of line 131 for the part at index \<open>i\<close> of \<open>n\<close> parts
  (lines 132-198): the node of the main KR part and the decorator group of the part.
\<close>

definition part_step :: "nat \<Rightarrow> nat \<Rightarrow> string \<Rightarrow> string list \<times> (error + node \<times> node list)" where
  "part_step i n part =
     (let p = str_find part CHR ''['' in
      if int i \<noteq> int n - 1 \<and> p = - 1
      then ([''MISSING KEPZO: '' @ part], Inl (AssertionError 139))
      else
       (let p = (if p = - 1 then int (length part) else p) in
        if p = 0 \<and> i \<noteq> 0
        then ([''SUBCATEGORIZATION (empty main category) IS ONLY ALLOWED AT THE FIRST POSITION: ''
                 @ part], Inl (AssertionError 149))
        else
         (case analyzeKR (take (nat p) part) of
            (log, Inl e) \<Rightarrow> (log, Inl e)
          | (log, Inr krNode) \<Rightarrow>
              (case scan START [] [] part of
                 (log', Inl e) \<Rightarrow> (log @ log', Inl e)
               | (log', Inr (st, kepzoGroup)) \<Rightarrow>
                   if st = IN then (log @ log', Inl (AssertionError 196))
                   else (log @ log', Inr (krNode, kepzoGroup))))))"

text \<open>The for loop of line 131 over the parts after the stem.\<close>

fun parts_loop :: "nat \<Rightarrow> nat \<Rightarrow> string list \<Rightarrow> krcode \<Rightarrow> string list \<times> (error + krcode)" where
  "parts_loop i n [] krCode = ([], Inr krCode)"
| "parts_loop i n (part # rest) krCode =
     (case part_step i n part of
        (log, Inl e) \<Rightarrow> (log, Inl e)
      | (log, Inr (krNode, kepzoGroup)) \<Rightarrow>
          (let k1 = krCode\<lparr>krNodes := krNodes krCode @ [krNode]\<rparr>;
               k2 = (if length kepzoGroup > 0
                     then k1\<lparr>kepzos := kepzos k1 @ [kepzoGroup]\<rparr> else k1)
           in case parts_loop (i + 1) n rest k2 of (log', r) \<Rightarrow> (log @ log', r)))"

text \<open>
  Lines 114-127, on \<^verbatim>\<open>stem = tkr[0]\<close>: the checks on the stem and the removal of
  its \<^verbatim>\<open>{...}\<close> suffix; the result is \<^verbatim>\<open>realStem\<close>.
\<close>

definition real_stem :: "string \<Rightarrow> error + string" where
  "real_stem tkr0 =
     (if str_find tkr0 CHR ''<'' \<noteq> - 1 then Inl (AssertionError 115)
      else if str_find tkr0 CHR ''>'' \<noteq> - 1 then Inl (AssertionError 116)
      else if str_find tkr0 CHR ''['' \<noteq> - 1 then Inl (AssertionError 117)
      else if str_find tkr0 CHR '']'' \<noteq> - 1 then Inl (AssertionError 118)
      else
       (let p = str_find tkr0 CHR ''{'' in
        if tkr0 \<noteq> [] \<and> last tkr0 = CHR ''}'' then
          (if p = - 1 then Inl (AssertionError 121)
           else (let realStem = take (nat p) tkr0 in
                 if str_find realStem CHR ''}'' \<noteq> - 1 then Inl (AssertionError 123)
                 else Inr realStem))
        else if p \<noteq> - 1 then Inl (AssertionError 126)
        else Inr tkr0))"

text \<open>analyzeConstituent (lines 109-204).\<close>

definition analyzeConstituent :: "string \<Rightarrow> string list \<times> (error + krcode)" where
  "analyzeConstituent w =
     (case split CHR ''/'' w of
        [] \<Rightarrow> ([], Inl IndexError)
      | tkr0 # parts \<Rightarrow>
         (case real_stem tkr0 of
            Inl e \<Rightarrow> ([], Inl e)
          | Inr realStem \<Rightarrow>
             (case parts_loop 0 (length parts) parts
                     \<lparr>stem = realStem, krNodes = [], kepzos = []\<rparr> of
                (log, Inl e) \<Rightarrow> (log, Inl e)
              | (log, Inr krCode) \<Rightarrow>
                 (case KRCode_str krCode of
                    Inl e \<Rightarrow> (log, Inl e)
                  | Inr s \<Rightarrow>
                      if w \<noteq> s then (log @ [w @ '' != '' @ s], Inl (Raised ''internal error''))
                      else (log, Inr krCode)))))"

text \<open>analyze (lines 206-212): every constituent between \<^verbatim>\<open>+\<close> signs, in order.\<close>

fun analyze_loop :: "string list \<Rightarrow> string list \<times> (error + krcode list)" where
  "analyze_loop [] = ([], Inr [])"
| "analyze_loop (w # ws) =
     (case analyzeConstituent w of
        (log, Inl e) \<Rightarrow> (log, Inl e)
      | (log, Inr krCode) \<Rightarrow>
          (case analyze_loop ws of
             (log', Inl e) \<Rightarrow> (log @ log', Inl e)
           | (log', Inr krCodes) \<Rightarrow> (log @ log', Inr (krCode # krCodes))))"

definition analyze :: "string \<Rightarrow> string list \<times> (error + krcode list)" where
  "analyze t = analyze_loop (split CHR ''+'' t)"

section \<open>The attribute dictionary\<close>

text \<open>
  A Python dictionary whose values are strings, integers or dictionaries. It is an
  association list in insertion order with \<open>map_of\<close> as lookup and \<open>AList.update\<close> as
  assignment (an existing key keeps its place, a new key goes last), so equal lists
  are equal dictionaries.
\<close>

datatype val = VStr string | VInt int | VDict "(string \<times> val) list"

type_synonym dict = "(string \<times> val) list"

text \<open>\<^verbatim>\<open>xs[i]\<close>: a negative index counts from the end, out of range raises.\<close>

definition py_get :: "'a list \<Rightarrow> int \<Rightarrow> error + 'a" where
  "py_get xs i =
     (let j = (if i < 0 then i + int (length xs) else i)
      in if j < 0 \<or> int (length xs) \<le> j then Inl IndexError else Inr (xs ! nat j))"

text \<open>The loop of lines 239-247 over the children of a chain node.\<close>

fun child_attrs :: "node list \<Rightarrow> dict \<Rightarrow> dict" where
  "child_attrs [] dictionary = dictionary"
| "child_attrs (ch_node # rest) dictionary =
     (let attr = nvalue ch_node;
          v = (case children ch_node of [] \<Rightarrow> VInt 1 | c # _ \<Rightarrow> VStr (nvalue c));
          (attr, v) = (if attr = ''PLUR'' then (''NUM'', VStr ''PLUR'') else (attr, v))
      in child_attrs rest (AList.update attr v dictionary))"

text \<open>node_dictionary (lines 235-256).\<close>

function node_dictionary :: "node list \<Rightarrow> node list list \<Rightarrow> int \<Rightarrow> error + dict" where
  "node_dictionary nodes kepzos' i =
     (case py_get nodes i of
        Inl e \<Rightarrow> Inl e
      | Inr node \<Rightarrow>
         (let dictionary = child_attrs (children node) [(''CAT'', VStr (nvalue node))] in
          if i > 0 then
            (case py_get kepzos' (i - 1) of
               Inl e \<Rightarrow> Inl e
             | Inr kepzoGroup \<Rightarrow>
                (case py_get kepzoGroup 0 of
                   Inl e \<Rightarrow> Inl e
                 | Inr kepzo \<Rightarrow>
                    (let deriv = [(''CAT'', VStr (nvalue kepzo))];
                         deriv = (case children kepzo of
                                    [] \<Rightarrow> deriv
                                  | c # _ \<Rightarrow> AList.update ''TYPE'' (VStr (nvalue c)) deriv)
                     in case node_dictionary nodes kepzos' (i - 1) of
                          Inl e \<Rightarrow> Inl e
                        | Inr stemDict \<Rightarrow>
                            Inr (AList.update ''SRC''
                                   (VDict [(''DERIV'', VDict deriv), (''STEM'', VDict stemDict)])
                                   dictionary))))
          else Inr dictionary))"
  by pat_completeness auto
termination
  by (relation "measure (\<lambda>(nodes, kepzos', i). nat i)") auto

declare node_dictionary.simps [simp del]

text \<open>The guarded assignments of lines 217-229: a default only for an absent key.\<close>

definition set_default :: "string \<Rightarrow> val \<Rightarrow> dict \<Rightarrow> dict" where
  "set_default k v d = (if map_of d k = None then AList.update k v d else d)"

text \<open>
  Lines 216-229 of fill_def_values: the defaults of one level, for the value \<open>cat\<close>
  read from \<^verbatim>\<open>dict_attributes['CAT']\<close> at line 216; line 227 reads the key again.
\<close>

definition level_defaults :: "val \<Rightarrow> dict \<Rightarrow> dict" where
  "level_defaults cat d =
     (let d1 = (if cat = VStr ''NOUN''
                then set_default ''POSS'' (VStr ''0'')
                      (set_default ''DEF'' (VStr ''0'')
                        (set_default ''ANP'' (VStr ''0'')
                          (set_default ''NUM'' (VStr ''SING'')
                            (set_default ''CAS'' (VStr ''NOM'') d))))
                else d)
      in if map_of d1 ''CAT'' = Some (VStr ''ADJ'')
         then set_default ''CAS'' (VStr ''NOM'') d1 else d1)"

text \<open>
  fill_def_values (lines 214-232). The source updates the dictionary in place and
  returns it; the model returns the updated dictionary. A missing key raises KeyError,
  subscripting a string or an integer with a key raises TypeError.
\<close>

function fill_def_values :: "dict \<Rightarrow> error + dict" where
  "fill_def_values d =
     (case map_of d ''CAT'' of
        None \<Rightarrow> Inl (KeyError ''CAT'')
      | Some cat \<Rightarrow>
         (let d2 = level_defaults cat d
          in case map_of d2 ''SRC'' of
               None \<Rightarrow> Inr d2
             | Some (VDict src) \<Rightarrow>
                 (case map_of src ''STEM'' of
                    None \<Rightarrow> Inl (KeyError ''STEM'')
                  | Some (VDict stemDict) \<Rightarrow>
                      (case fill_def_values stemDict of
                         Inl e \<Rightarrow> Inl e
                       | Inr filled \<Rightarrow>
                           Inr (AList.update ''SRC''
                                  (VDict (AList.update ''STEM'' (VDict filled) src)) d2))
                  | Some _ \<Rightarrow> Inl TypeError)
             | Some _ \<Rightarrow> Inl TypeError))"
  by pat_completeness auto

lemma map_of_set_default:
  "map_of (set_default k v d) k' =
     (if k' = k \<and> map_of d k = None then Some v else map_of d k')"
  by (simp add: set_default_def update_conv')

lemma map_of_level_defaults_other:
  "k \<notin> {''CAS'', ''NUM'', ''ANP'', ''DEF'', ''POSS''} \<Longrightarrow>
   map_of (level_defaults cat d) k = map_of d k"
  by (simp add: level_defaults_def Let_def map_of_set_default)

lemma map_of_size_less: "map_of d k = Some v \<Longrightarrow> size v < size (VDict d)"
  by (induction d) (auto split: if_splits)

termination fill_def_values
proof (relation "measure (\<lambda>d. size (VDict d))", goal_cases)
  case 1
  then show ?case by simp
next
  case (2 d cat d2 v src w stemDict)
  then have "map_of d ''SRC'' = Some (VDict src)"
    by (simp add: map_of_level_defaults_other)
  from map_of_size_less[OF this] map_of_size_less[of src "''STEM''" "VDict stemDict"] 2
  show ?case by simp
qed

declare fill_def_values.simps [simp del]

text \<open>
  The dictionaries on which fill_def_values returns: a CAT entry at the top level, and
  the value of the key SRC, when the key is present, is a dictionary whose key STEM
  holds a dictionary of the same kind (a derivation record, as lines 249-255 of
  node_dictionary build it).
\<close>

function cat_and_stem_at_every_level :: "dict \<Rightarrow> bool" where
  "cat_and_stem_at_every_level d =
     (map_of d ''CAT'' \<noteq> None \<and>
      (case map_of d ''SRC'' of
         None \<Rightarrow> True
       | Some (VDict src) \<Rightarrow>
           (case map_of src ''STEM'' of
              Some (VDict stemDict) \<Rightarrow> cat_and_stem_at_every_level stemDict
            | _ \<Rightarrow> False)
       | Some _ \<Rightarrow> False))"
  by pat_completeness auto
termination
proof (relation "measure (\<lambda>d. size (VDict d))", goal_cases)
  case 1
  then show ?case by simp
next
  case (2 d v src w stemDict)
  from map_of_size_less[of d "''SRC''" "VDict src"]
       map_of_size_less[of src "''STEM''" "VDict stemDict"] 2
  show ?case by simp
qed

declare cat_and_stem_at_every_level.simps [simp del]

text \<open>
  \<open>keeps v v'\<close>: the value \<open>v'\<close> has replaced nothing of \<open>v\<close>. A string or an integer
  is unchanged; a dictionary still has every key it had, each with a value that keeps
  the old one (it may have gained keys).
\<close>

function keeps :: "val \<Rightarrow> val \<Rightarrow> bool" where
  "keeps (VStr s) v = (v = VStr s)"
| "keeps (VInt i) v = (v = VInt i)"
| "keeps (VDict a) v =
     (case v of
        VDict b \<Rightarrow>
          (\<forall>k \<in> set (map fst a).
             case map_of a k of
               None \<Rightarrow> False
             | Some x \<Rightarrow> (case map_of b k of None \<Rightarrow> False | Some y \<Rightarrow> keeps x y))
      | _ \<Rightarrow> False)"
  by pat_completeness auto
termination
proof (relation "measure (\<lambda>(x, y). size x)", goal_cases)
  case 1
  then show ?case by simp
next
  case (2 a v b k x y)
  from map_of_size_less[of a k x] 2 show ?case by simp
qed


declare keeps.simps(3) [simp del]

text \<open>kr_to_dictionary (lines 260-264): the dictionary of the first constituent.\<close>

definition kr_to_dictionary :: "string \<Rightarrow> string list \<times> (error + dict)" where
  "kr_to_dictionary kr_code =
     (case analyze kr_code of
        (log, Inl e) \<Rightarrow> (log, Inl e)
      | (log, Inr krCodes) \<Rightarrow>
         (case py_get krCodes 0 of
            Inl e \<Rightarrow> (log, Inl e)
          | Inr code \<Rightarrow>
             (let i = int (length (krNodes code)) in
              case node_dictionary (krNodes code) (kepzos code) (i - 1) of
                Inl e \<Rightarrow> (log, Inl e)
              | Inr not_specified \<Rightarrow> (log, fill_def_values not_specified))))"

section \<open>Facts about the scanner and the loop over the parts\<close>

text \<open>A successful step writes nothing to standard error.\<close>

lemma analyzeKR_log: "analyzeKR code = (log, Inr nd) \<Longrightarrow> log = []"
  by (auto simp: analyzeKR_def split: sum.splits prod.splits if_splits)

lemma scan_props:
  "scan st kepzo g cs = (log, Inr (st', grp)) \<Longrightarrow>
     log = [] \<and> (\<exists>ys. grp = g @ ys) \<and>
     (st = IN \<longrightarrow> st' = IN \<or> (st' = OUT \<and> grp \<noteq> [])) \<and>
     (st = OUT \<longrightarrow> g \<noteq> [] \<longrightarrow> (st' = IN \<or> st' = OUT) \<and> grp \<noteq> []) \<and>
     (st = START \<longrightarrow> CHR ''['' \<in> set cs \<longrightarrow> st' = IN \<or> (st' = OUT \<and> grp \<noteq> []))"
proof (induction st kepzo g cs arbitrary: log st' grp rule: scan.induct)
  case (1 st kepzo kepzoGroup)
  then show ?case by auto
next
  case (2 kepzo kepzoGroup c cs)
  then show ?case by (auto split: if_splits)
next
  case (3 kepzo kepzoGroup c cs)
  show ?case
  proof (cases "c = CHR '']''")
    case True
    with "3.prems" obtain l1 nd l2 where
      a: "analyzeKR kepzo = (l1, Inr nd)" and
      s: "scan OUT [] (kepzoGroup @ [nd]) cs = (l2, Inr (st', grp))" and
      l: "log = l1 @ l2"
      by (auto split: if_splits sum.splits prod.splits)
    from "3.IH"(1)[OF _ True _ _ s] a True
    have "l2 = [] \<and> (\<exists>ys. grp = (kepzoGroup @ [nd]) @ ys) \<and> (st' = IN \<or> st' = OUT) \<and> grp \<noteq> []"
      by auto
    with analyzeKR_log[OF a] l show ?thesis by auto
  next
    case False
    with "3.prems" "3.IH"(2) show ?thesis by (auto split: if_splits)
  qed
next
  case (4 kepzo kepzoGroup c cs)
  then show ?case by (auto split: if_splits)
qed

lemma part_step_props:
  assumes "part_step i n part = (log, Inr (nd, g))"
  shows "log = [] \<and> (int i \<noteq> int n - 1 \<longrightarrow> g \<noteq> [])"
proof -
  let ?p = "str_find part CHR ''[''"
  from assms have c1: "\<not> (int i \<noteq> int n - 1 \<and> ?p = - 1)"
    by (auto simp: part_step_def Let_def split: if_splits)
  from assms obtain l1 l2 st where
    a: "analyzeKR (take (nat (if ?p = - 1 then int (length part) else ?p)) part) = (l1, Inr nd)" and
    s: "scan START [] [] part = (l2, Inr (st, g))" and st: "st \<noteq> IN" and l: "log = l1 @ l2"
    by (auto simp: part_step_def Let_def split: if_splits sum.splits prod.splits)
  have "?p \<noteq> - 1 \<Longrightarrow> CHR ''['' \<in> set part" by (auto simp: str_find_def split: if_splits)
  with scan_props[OF s] analyzeKR_log[OF a] c1 st l show ?thesis by auto
qed


lemma parts_loop_chain:
  "parts_loop i n rest k0 = (log, Inr k) \<Longrightarrow> i + length rest = n \<Longrightarrow>
   \<exists>nds gs. log = [] \<and> stem k = stem k0 \<and>
     krNodes k = krNodes k0 @ nds \<and> length nds = length rest \<and>
     kepzos k = kepzos k0 @ gs \<and> (length gs = length rest \<or> length gs + 1 = length rest) \<and>
     (\<forall>j < length rest. part_step (i + j) n (rest ! j) =
          ([], Inr (nds ! j, if j < length gs then gs ! j else []))) \<and>
     (\<forall>g \<in> set gs. g \<noteq> [])"
proof (induction rest arbitrary: i k0 log)
  case Nil
  then show ?case by simp
next
  case (Cons part rest)
  from Cons.prems(1) obtain l1 nd g l2 where
    ps: "part_step i n part = (l1, Inr (nd, g))" and
    pl: "parts_loop (i + 1) n rest
           (if length g > 0
            then k0\<lparr>krNodes := krNodes k0 @ [nd], kepzos := kepzos k0 @ [g]\<rparr>
            else k0\<lparr>krNodes := krNodes k0 @ [nd]\<rparr>) = (l2, Inr k)" and
    l: "log = l1 @ l2"
    by (auto simp: Let_def split: sum.splits prod.splits if_splits)
  from part_step_props[OF ps] have l1: "l1 = []" and gne: "int i \<noteq> int n - 1 \<Longrightarrow> g \<noteq> []"
    by auto
  let ?k2 = "if length g > 0
            then k0\<lparr>krNodes := krNodes k0 @ [nd], kepzos := kepzos k0 @ [g]\<rparr>
            else k0\<lparr>krNodes := krNodes k0 @ [nd]\<rparr>"
  from Cons.prems(2) have n1: "(i + 1) + length rest = n" by simp
  from Cons.IH[OF pl n1] obtain nds gs where
    ih: "l2 = []" "stem k = stem ?k2" "krNodes k = krNodes ?k2 @ nds" "length nds = length rest"
        "kepzos k = kepzos ?k2 @ gs" "length gs = length rest \<or> length gs + 1 = length rest"
        "\<forall>j < length rest. part_step (i + 1 + j) n (rest ! j) =
            ([], Inr (nds ! j, if j < length gs then gs ! j else []))"
        "\<forall>g \<in> set gs. g \<noteq> []"
    by blast
  show ?case
  proof (cases "g = []")
    case True
    with gne have "int i = int n - 1" by auto
    with Cons.prems(2) have r: "rest = []" by auto
    with ih have "nds = []" "gs = []" by auto
    with True r ih l l1 ps show ?thesis
      by (intro exI[of _ "[nd]"] exI[of _ "[]"]) simp
  next
    case False
    have step: "\<forall>j < length (part # rest). part_step (i + j) n ((part # rest) ! j) =
          ([], Inr ((nd # nds) ! j, if j < length (g # gs) then (g # gs) ! j else []))"
    proof (intro allI impI)
      fix j assume "j < length (part # rest)"
      show "part_step (i + j) n ((part # rest) ! j) =
          ([], Inr ((nd # nds) ! j, if j < length (g # gs) then (g # gs) ! j else []))"
      proof (cases j)
        case 0
        with ps l1 show ?thesis by simp
      next
        case (Suc m)
        with \<open>j < length (part # rest)\<close> have "m < length rest" by simp
        with ih(7) Suc show ?thesis by simp
      qed
    qed
    from False ih l l1 step show ?thesis
      by (intro exI[of _ "nd # nds"] exI[of _ "g # gs"]) auto
  qed
qed

section \<open>Scenario B\<close>

text \<open>
  Claim C3. For the input \<^verbatim>\<open>alapszo/FN[IGE]/IGE<MOD<FELT>>\<close>, whose stem ends with
  o-acute (the two bytes C3 B3 of its UTF-8 encoding), decoding succeeds and writes
  nothing to standard error; the chain nodes are FN and IGE with child MOD with child
  FELT, the only decorator group is [IGE], the rendered form is the input, and the
  dictionary of kr_to_dictionary is CAT = IGE, MOD = FELT, SRC = (DERIV = (CAT = IGE),
  STEM = (CAT = FN)).
\<close>

theorem scenario_B_decodes:
  "analyzeConstituent (''alapsz'' @ [CHR 0xC3, CHR 0xB3] @ ''/FN[IGE]/IGE<MOD<FELT>>'') =
     ([], Inr \<lparr>stem = ''alapsz'' @ [CHR 0xC3, CHR 0xB3],
              krNodes = [Node ''FN'' [], Node ''IGE'' [Node ''MOD'' [Node ''FELT'' []]]],
              kepzos = [[Node ''IGE'' []]]\<rparr>)
   \<and> KRCode_str \<lparr>stem = ''alapsz'' @ [CHR 0xC3, CHR 0xB3],
              krNodes = [Node ''FN'' [], Node ''IGE'' [Node ''MOD'' [Node ''FELT'' []]]],
              kepzos = [[Node ''IGE'' []]]\<rparr>
       = Inr (''alapsz'' @ [CHR 0xC3, CHR 0xB3] @ ''/FN[IGE]/IGE<MOD<FELT>>'')
   \<and> kr_to_dictionary (''alapsz'' @ [CHR 0xC3, CHR 0xB3] @ ''/FN[IGE]/IGE<MOD<FELT>>'') =
     ([], Inr [(''CAT'', VStr ''IGE''), (''MOD'', VStr ''FELT''),
               (''SRC'', VDict [(''DERIV'', VDict [(''CAT'', VStr ''IGE'')]),
                                (''STEM'', VDict [(''CAT'', VStr ''FN'')])])])"
  by code_simp

section \<open>The round trip\<close>

text \<open>
  Claim C1. Whenever analyzeConstituent returns a KRCode for a token \<open>w\<close>, rendering
  that KRCode with KRCode.__str__ gives exactly \<open>w\<close>. And whenever the stem checks and
  the loop over the parts have passed but the rendered form \<open>s\<close> differs from \<open>w\<close>,
  analyzeConstituent writes the line \<^verbatim>\<open>w != s\<close> to standard error and raises
  \<^verbatim>\<open>"internal error"\<close> (lines 200-202, the round-trip mismatch) instead of returning.
\<close>

theorem round_trip:
  "(snd (analyzeConstituent w) = Inr k \<longrightarrow> KRCode_str k = Inr w)
   \<and> (split CHR ''/'' w = tkr0 # parts
        \<and> real_stem tkr0 = Inr realStem
        \<and> parts_loop 0 (length parts) parts \<lparr>stem = realStem, krNodes = [], kepzos = []\<rparr>
            = (log, Inr krCode)
        \<and> KRCode_str krCode = Inr s \<and> s \<noteq> w
      \<longrightarrow> analyzeConstituent w = (log @ [w @ '' != '' @ s], Inl (Raised ''internal error'')))"
proof (intro conjI impI)
  assume "snd (analyzeConstituent w) = Inr k"
  then show "KRCode_str k = Inr w"
    by (auto simp: analyzeConstituent_def split: list.splits sum.splits prod.splits if_splits)
next
  assume "split CHR ''/'' w = tkr0 # parts
        \<and> real_stem tkr0 = Inr realStem
        \<and> parts_loop 0 (length parts) parts \<lparr>stem = realStem, krNodes = [], kepzos = []\<rparr>
            = (log, Inr krCode)
        \<and> KRCode_str krCode = Inr s \<and> s \<noteq> w"
  then show "analyzeConstituent w = (log @ [w @ '' != '' @ s], Inl (Raised ''internal error''))"
    by (auto simp: analyzeConstituent_def)
qed

text \<open>
  The token \<^verbatim>\<open>x/NOUN\<close> is accepted and renders to itself; \<^verbatim>\<open>x/A<B\<close> passes every
  check before line 200, renders to \<^verbatim>\<open>x/A<B>\<close> and is refused.
\<close>

theorem round_trip_witness:
  "snd (analyzeConstituent ''x/NOUN'') = Inr \<lparr>stem = ''x'', krNodes = [Node ''NOUN'' []], kepzos = []\<rparr>
   \<and> KRCode_str \<lparr>stem = ''x'', krNodes = [Node ''NOUN'' []], kepzos = []\<rparr> = Inr ''x/NOUN''
   \<and> KRCode_str \<lparr>stem = ''x'', krNodes = [Node ''A'' [Node ''B'' []]], kepzos = []\<rparr> = Inr ''x/A<B>''
   \<and> analyzeConstituent ''x/A<B'' = ([''x/A<B != x/A<B>''], Inl (Raised ''internal error''))"
proof -
  have h1: "snd (analyzeConstituent ''x/NOUN'')
              = Inr \<lparr>stem = ''x'', krNodes = [Node ''NOUN'' []], kepzos = []\<rparr>"
    by code_simp
  have h2: "split CHR ''/'' ''x/A<B'' = ''x'' # [''A<B'']
        \<and> real_stem ''x'' = Inr ''x''
        \<and> parts_loop 0 (length [''A<B'']) [''A<B''] \<lparr>stem = ''x'', krNodes = [], kepzos = []\<rparr>
            = ([], Inr \<lparr>stem = ''x'', krNodes = [Node ''A'' [Node ''B'' []]], kepzos = []\<rparr>)
        \<and> KRCode_str \<lparr>stem = ''x'', krNodes = [Node ''A'' [Node ''B'' []]], kepzos = []\<rparr>
            = Inr ''x/A<B>'' \<and> ''x/A<B>'' \<noteq> ''x/A<B''"
    by code_simp
  from round_trip[of "''x/NOUN''" "\<lparr>stem = ''x'', krNodes = [Node ''NOUN'' []], kepzos = []\<rparr>"] h1
  have a: "KRCode_str \<lparr>stem = ''x'', krNodes = [Node ''NOUN'' []], kepzos = []\<rparr> = Inr ''x/NOUN''"
    by blast
  from round_trip[of "''x/A<B''" _ "''x''" "[''A<B'']" "''x''" "[]"
        "\<lparr>stem = ''x'', krNodes = [Node ''A'' [Node ''B'' []]], kepzos = []\<rparr>" "''x/A<B>''"] h2
  have b: "analyzeConstituent ''x/A<B'' = ([] @ [''x/A<B'' @ '' != '' @ ''x/A<B>''], Inl (Raised ''internal error''))"
    by blast
  from h1 a h2 b show ?thesis by simp
qed

section \<open>The chain invariant\<close>

lemma split_not_Nil: "split c w \<noteq> []"
  by (induction w) (auto split: list.splits)

text \<open>
  Claim C2. For every KRCode that analyzeConstituent returns, the number of chain
  nodes minus the number of decorator groups is 0 or 1. Equivalently: there is one chain
  node per part after the stem; the node and the group at index \<open>i\<close> are the ones the
  loop body produced from the part at index \<open>i\<close> (so groups are in position order, and
  only a part past the last group has the empty group); and no stored group is empty.
\<close>

theorem chain_invariant:
  assumes "snd (analyzeConstituent w) = Inr k"
  shows "length (kepzos k) \<le> length (krNodes k)
       \<and> length (krNodes k) \<le> length (kepzos k) + 1
       \<and> length (krNodes k) = length (tl (split CHR ''/'' w))
       \<and> (\<forall>i < length (krNodes k).
            part_step i (length (krNodes k)) (tl (split CHR ''/'' w) ! i)
              = ([], Inr (krNodes k ! i, if i < length (kepzos k) then kepzos k ! i else [])))
       \<and> (\<forall>g \<in> set (kepzos k). g \<noteq> [])"
proof -
  from assms obtain tkr0 parts rs log where
    sp: "split CHR ''/'' w = tkr0 # parts" and
    pl: "parts_loop 0 (length parts) parts \<lparr>stem = rs, krNodes = [], kepzos = []\<rparr> = (log, Inr k)"
    by (auto simp: analyzeConstituent_def split: list.splits sum.splits prod.splits if_splits)
  from parts_loop_chain[OF pl] obtain nds gs where
    c: "krNodes k = nds" "length nds = length parts" "kepzos k = gs"
       "length gs = length parts \<or> length gs + 1 = length parts"
       "\<forall>j < length parts. part_step j (length parts) (parts ! j) =
          ([], Inr (nds ! j, if j < length gs then gs ! j else []))"
       "\<forall>g \<in> set gs. g \<noteq> []"
    by auto
  with sp show ?thesis by auto
qed

theorem chain_invariant_witness:
  "snd (analyzeConstituent ''x/A[B<C>][D]/E'')
     = Inr \<lparr>stem = ''x'', krNodes = [Node ''A'' [], Node ''E'' []],
            kepzos = [[Node ''B'' [Node ''C'' []], Node ''D'' []]]\<rparr>
   \<and> length [[Node ''B'' [Node ''C'' []], Node ''D'' []]] \<le> length [Node ''A'' [], Node ''E'' []]
   \<and> length [Node ''A'' [], Node ''E'' []] \<le> length [[Node ''B'' [Node ''C'' []], Node ''D'' []]] + 1
   \<and> part_step 0 2 ''A[B<C>][D]'' = ([], Inr (Node ''A'' [], [Node ''B'' [Node ''C'' []], Node ''D'' []]))
   \<and> part_step 1 2 ''E'' = ([], Inr (Node ''E'' [], []))"
proof -
  have h: "snd (analyzeConstituent ''x/A[B<C>][D]/E'')
     = Inr \<lparr>stem = ''x'', krNodes = [Node ''A'' [], Node ''E'' []],
            kepzos = [[Node ''B'' [Node ''C'' []], Node ''D'' []]]\<rparr>"
    by code_simp
  have sp: "tl (split CHR ''/'' ''x/A[B<C>][D]/E'') = [''A[B<C>][D]'', ''E'']" by code_simp
  let ?K = "\<lparr>stem = ''x'', krNodes = [Node ''A'' [], Node ''E'' []],
            kepzos = [[Node ''B'' [Node ''C'' []], Node ''D'' []]]\<rparr>"
  from chain_invariant[OF h] sp have
    q: "\<And>i. i < length (krNodes ?K) \<Longrightarrow>
          part_step i (length (krNodes ?K)) ([''A[B<C>][D]'', ''E''] ! i)
            = ([], Inr (krNodes ?K ! i, if i < length (kepzos ?K) then kepzos ?K ! i else []))"
    by simp
  from q[of 0] have "part_step 0 2 ''A[B<C>][D]''
      = ([], Inr (Node ''A'' [], [Node ''B'' [Node ''C'' []], Node ''D'' []]))"
    by (simp add: numeral_2_eq_2)
  moreover from q[of 1] have "part_step 1 2 ''E'' = ([], Inr (Node ''E'' [], []))"
    by (simp add: numeral_2_eq_2)
  ultimately show ?thesis using h by simp
qed

section \<open>Braces in the stem\<close>

lemma str_find_minus1: "str_find s c = - 1 \<longleftrightarrow> c \<notin> set s"
  by (simp add: str_find_def)

lemma str_find_nth:
  "c \<in> set s \<Longrightarrow> nat (str_find s c) < length s \<and> s ! nat (str_find s c) = c"
  by (simp add: str_find_def takeWhile_neq_less nth_length_takeWhile) (induction s, auto)

lemma split_hd_prefix: "split c w = t # ps \<Longrightarrow> c \<notin> set t \<and> (\<exists>r. w = t @ r)"
proof (induction w arbitrary: t ps)
  case Nil
  then show ?case by simp
next
  case (Cons x xs)
  show ?case
  proof (cases "x = c")
    case True
    with Cons.prems show ?thesis by auto
  next
    case False
    from split_not_Nil[of c xs] obtain y ys where s: "split c xs = y # ys"
      by (cases "split c xs") auto
    with Cons.prems False have t: "t = x # y" by simp
    from Cons.IH[OF s] t False show ?thesis by auto
  qed
qed

lemma KRCode_str_prefix: "KRCode_str k = Inr s \<Longrightarrow> \<exists>r. s = stem k @ ''/'' @ r"
  by (auto simp: KRCode_str_def Let_def split: if_splits)

text \<open>
  Claim C10. For every token whose stem segment (the text before the first \<^verbatim>\<open>/\<close>)
  contains \<^verbatim>\<open>{\<close> and does not end with \<^verbatim>\<open>}\<close>, analyzeConstituent raises before the
  loop over the parts and writes nothing: the assert of line 126 fails, unless one of
  the asserts of lines 115-118 on the stem has failed before it. So a brace marker can
  only be accepted when \<^verbatim>\<open>}\<close> is the last character of the stem segment.
\<close>

theorem brace_not_last_rejected:
  assumes "split CHR ''/'' w = tkr0 # parts" and "CHR ''{'' \<in> set tkr0"
    and "last tkr0 \<noteq> CHR ''}''"
  shows "analyzeConstituent w =
           ([], Inl (if CHR ''<'' \<in> set tkr0 then AssertionError 115
                     else if CHR ''>'' \<in> set tkr0 then AssertionError 116
                     else if CHR ''['' \<in> set tkr0 then AssertionError 117
                     else if CHR '']'' \<in> set tkr0 then AssertionError 118
                     else AssertionError 126))"
  using assms by (simp add: analyzeConstituent_def real_stem_def str_find_minus1)

theorem brace_not_last_rejected_witness:
  "split CHR ''/'' ''a{b/NOUN'' = ''a{b'' # [''NOUN''] \<and> CHR ''{'' \<in> set ''a{b''
   \<and> last ''a{b'' \<noteq> CHR ''}''
   \<and> analyzeConstituent ''a{b/NOUN'' = ([], Inl (AssertionError 126))"
proof -
  have h: "split CHR ''/'' ''a{b/NOUN'' = ''a{b'' # [''NOUN'']" by code_simp
  from brace_not_last_rejected[OF h] h show ?thesis by simp
qed

lemma brace_stem_fails:
  assumes sp: "split CHR ''/'' w = tkr0 # parts" and ne: "tkr0 \<noteq> []"
    and la: "last tkr0 = CHR ''}''"
  shows "\<exists>log e. analyzeConstituent w = (log, Inl e)"
proof (cases "snd (analyzeConstituent w)")
  case (Inl e)
  then show ?thesis by (cases "analyzeConstituent w") auto
next
  case (Inr k)
  from Inr sp obtain rs log where
    rs: "real_stem tkr0 = Inr rs" and
    pl: "parts_loop 0 (length parts) parts \<lparr>stem = rs, krNodes = [], kepzos = []\<rparr> = (log, Inr k)" and
    ks: "KRCode_str k = Inr w"
    by (auto simp: analyzeConstituent_def split: list.splits sum.splits prod.splits if_splits)
  let ?p = "str_find tkr0 CHR ''{''"
  from rs ne la have br: "CHR ''{'' \<in> set tkr0" and rs': "rs = take (nat ?p) tkr0"
    by (auto simp: real_stem_def Let_def str_find_minus1 split: if_splits)
  from str_find_nth[OF br] have lt: "nat ?p < length tkr0" and at: "tkr0 ! nat ?p = CHR ''{''"
    by auto
  from parts_loop_chain[OF pl] have "stem k = rs" by auto
  with KRCode_str_prefix[OF ks] obtain r where w1: "w = rs @ ''/'' @ r" by auto
  from split_hd_prefix[OF sp] obtain r' where w2: "w = tkr0 @ r'" by auto
  from rs' lt have len: "length rs = nat ?p" by simp
  from w1 len have "w ! nat ?p = CHR ''/''" by (simp add: nth_append)
  moreover from w2 lt at have "w ! nat ?p = CHR ''{''" by (simp add: nth_append)
  ultimately show ?thesis by simp
qed

text \<open>
  Claim C4 says that a token whose stem segment ends with \<^verbatim>\<open>}\<close> and contains \<^verbatim>\<open>{\<close>
  parses and returns the stem before the \<^verbatim>\<open>{\<close>. The code strips the marker (lines
  120-124) but compares the rendering of the stripped KRCode with the unstripped token
  (line 200), so no such token is ever accepted: every token whose stem segment ends
  with \<^verbatim>\<open>}\<close> makes analyzeConstituent raise, and \<^verbatim>\<open>stem{x}/NOUN\<close> raises
  \<^verbatim>\<open>"internal error"\<close> after the diagnostic \<^verbatim>\<open>stem{x}/NOUN != stem/NOUN\<close>.
\<close>

theorem brace_stem_never_accepted:
  "(split CHR ''/'' w = tkr0 # parts \<and> tkr0 \<noteq> [] \<and> last tkr0 = CHR ''}''
      \<longrightarrow> (\<exists>log e. analyzeConstituent w = (log, Inl e)))
   \<and> analyzeConstituent ''stem{x}/NOUN''
       = ([''stem{x}/NOUN != stem/NOUN''], Inl (Raised ''internal error''))"
proof (intro conjI impI)
  assume "split CHR ''/'' w = tkr0 # parts \<and> tkr0 \<noteq> [] \<and> last tkr0 = CHR ''}''"
  then show "\<exists>log e. analyzeConstituent w = (log, Inl e)"
    using brace_stem_fails[of w tkr0 parts] by blast
next
  show "analyzeConstituent ''stem{x}/NOUN''
       = ([''stem{x}/NOUN != stem/NOUN''], Inl (Raised ''internal error''))"
    by code_simp
qed

theorem brace_stem_never_accepted_witness:
  "split CHR ''/'' ''a{}/N'' = ''a{}'' # [''N''] \<and> ''a{}'' \<noteq> [] \<and> last ''a{}'' = CHR ''}''
   \<and> (\<exists>log e. analyzeConstituent ''a{}/N'' = (log, Inl e))"
proof -
  have h: "split CHR ''/'' ''a{}/N'' = ''a{}'' # [''N''] \<and> ''a{}'' \<noteq> []
             \<and> last ''a{}'' = CHR ''}''"
    by code_simp
  from brace_stem_never_accepted[of "''a{}/N''" "''a{}''" "[''N'']"] h
  have "\<exists>log e. analyzeConstituent ''a{}/N'' = (log, Inl e)" by blast
  with h show ?thesis by simp
qed

section \<open>The first failing part decides the outcome\<close>

text \<open>
  The loop of line 131 stops at the first part whose body raises: the outcome of
  analyzeConstituent is then that failure, with what the body wrote to standard error.
\<close>

lemma parts_loop_first_failure:
  "j < length rest \<Longrightarrow>
   (\<forall>m < j. \<exists>r. snd (part_step (i + m) n (rest ! m)) = Inr r) \<Longrightarrow>
   part_step (i + j) n (rest ! j) = (lg, Inl e) \<Longrightarrow>
   parts_loop i n rest k0 = (lg, Inl e)"
proof (induction rest arbitrary: i j k0)
  case Nil
  then show ?case by simp
next
  case (Cons part rest)
  show ?case
  proof (cases j)
    case 0
    with Cons.prems show ?thesis by simp
  next
    case (Suc j')
    from Cons.prems(2) Suc obtain r where "snd (part_step i n part) = Inr r"
      by (auto dest: spec[of _ 0])
    then obtain l1 nd g where ps: "part_step i n part = (l1, Inr (nd, g))"
      by (cases "part_step i n part"; cases r) auto
    from part_step_props[OF ps] have l1: "l1 = []" by simp
    have a: "j' < length rest" using Cons.prems(1) Suc by simp
    have b: "\<forall>m < j'. \<exists>r. snd (part_step (i + 1 + m) n (rest ! m)) = Inr r"
    proof (intro allI impI)
      fix m assume "m < j'"
      then have "Suc m < j" using Suc by simp
      with Cons.prems(2) have "\<exists>r. snd (part_step (i + Suc m) n ((part # rest) ! Suc m)) = Inr r"
        by blast
      then show "\<exists>r. snd (part_step (i + 1 + m) n (rest ! m)) = Inr r" by simp
    qed
    have c: "part_step (i + 1 + j') n (rest ! j') = (lg, Inl e)"
      using Cons.prems(3) Suc by simp
    note ih = Cons.IH[OF a b c]
    show ?thesis using ps l1 ih by (simp add: Let_def)
  qed
qed

lemma parts_loop_any_failure:
  "j < length rest \<Longrightarrow> snd (part_step (i + j) n (rest ! j)) = Inl e \<Longrightarrow>
   \<exists>lg e'. parts_loop i n rest k0 = (lg, Inl e')"
proof (induction rest arbitrary: i j k0)
  case Nil
  then show ?case by simp
next
  case (Cons part rest)
  show ?case
  proof (cases "snd (part_step i n part)")
    case (Inl e0)
    then show ?thesis by (cases "part_step i n part") auto
  next
    case (Inr r)
    then obtain l1 nd g where ps: "part_step i n part = (l1, Inr (nd, g))"
      by (cases "part_step i n part"; cases r) auto
    with Cons.prems(2) obtain j' where j: "j = Suc j'" by (cases j) auto
    with Cons.prems have a: "j' < length rest"
      and b: "snd (part_step (i + 1 + j') n (rest ! j')) = Inl e" by auto
    define K where "K = (let k1 = k0\<lparr>krNodes := krNodes k0 @ [nd]\<rparr>
                         in if length g > 0 then k1\<lparr>kepzos := kepzos k1 @ [g]\<rparr> else k1)"
    from Cons.IH[OF a b, of K] obtain lg e' where
      "parts_loop (i + 1) n rest K = (lg, Inl e')" by blast
    with ps show ?thesis by (simp add: K_def Let_def)
  qed
qed

lemma analyzeConstituent_first_failure:
  assumes "split CHR ''/'' w = tkr0 # parts" and "real_stem tkr0 = Inr rs"
    and "j < length parts"
    and "\<forall>m < j. \<exists>r. snd (part_step m (length parts) (parts ! m)) = Inr r"
    and "part_step j (length parts) (parts ! j) = (lg, Inl e)"
  shows "analyzeConstituent w = (lg, Inl e)"
  using parts_loop_first_failure[of j parts 0 "length parts" lg e] assms
  by (simp add: analyzeConstituent_def)

lemma analyzeConstituent_any_failure:
  assumes "split CHR ''/'' w = tkr0 # parts" and "j < length parts"
    and "snd (part_step j (length parts) (parts ! j)) = Inl e"
  shows "\<exists>lg e'. analyzeConstituent w = (lg, Inl e')"
proof -
  show ?thesis
  proof (cases "real_stem tkr0")
    case (Inl e0)
    with assms(1) show ?thesis by (simp add: analyzeConstituent_def)
  next
    case (Inr rs)
    from parts_loop_any_failure[of j parts 0 "length parts" e
           "\<lparr>stem = rs, krNodes = [], kepzos = []\<rparr>"] assms
    obtain lg e' where
      "parts_loop 0 (length parts) parts \<lparr>stem = rs, krNodes = [], kepzos = []\<rparr> = (lg, Inl e')"
      by auto
    with assms(1) Inr show ?thesis by (simp add: analyzeConstituent_def)
  qed
qed

section \<open>A position without a decorator\<close>

lemma part_step_missing_kepzo:
  "i + 1 < n \<Longrightarrow> CHR ''['' \<notin> set part \<Longrightarrow>
   part_step i n part = ([''MISSING KEPZO: '' @ part], Inl (AssertionError 139))"
  by (auto simp: part_step_def str_find_minus1)

text \<open>
  Claim C6, as the code has it. For every token in which some chain position other
  than the last contains no \<^verbatim>\<open>[\<close>, decoding fails. The failure is the assert of line
  139 (the missing derivation marker), and the line \<^verbatim>\<open>MISSING KEPZO: \<close> followed by the
  position is what was written to standard error before it, whenever the stem passes
  its checks and every earlier position is processed without error: the first failing
  check decides the error. In particular \<^verbatim>\<open>x/NOUN/NOUN<CAS<NOM>>\<close> fails this way.
\<close>

theorem missing_kepzo:
  "(split CHR ''/'' w = tkr0 # parts \<and> i + 1 < length parts \<and> CHR ''['' \<notin> set (parts ! i)
     \<longrightarrow> (\<exists>lg e. analyzeConstituent w = (lg, Inl e))
         \<and> ((\<exists>rs. real_stem tkr0 = Inr rs)
              \<and> (\<forall>m < i. \<exists>r. snd (part_step m (length parts) (parts ! m)) = Inr r)
            \<longrightarrow> analyzeConstituent w
                  = ([''MISSING KEPZO: '' @ parts ! i], Inl (AssertionError 139))))
   \<and> analyzeConstituent ''x/NOUN/NOUN<CAS<NOM>>''
       = ([''MISSING KEPZO: NOUN''], Inl (AssertionError 139))"
proof (intro conjI impI)
  assume h: "split CHR ''/'' w = tkr0 # parts \<and> i + 1 < length parts
             \<and> CHR ''['' \<notin> set (parts ! i)"
  then have ps: "part_step i (length parts) (parts ! i)
                   = ([''MISSING KEPZO: '' @ parts ! i], Inl (AssertionError 139))"
    by (simp add: part_step_missing_kepzo)
  from h have "i < length parts" by simp
  with h ps show "\<exists>lg e. analyzeConstituent w = (lg, Inl e)"
    using analyzeConstituent_any_failure[of w tkr0 parts i "AssertionError 139"] by simp
  assume "(\<exists>rs. real_stem tkr0 = Inr rs)
          \<and> (\<forall>m < i. \<exists>r. snd (part_step m (length parts) (parts ! m)) = Inr r)"
  with h ps \<open>i < length parts\<close>
  show "analyzeConstituent w = ([''MISSING KEPZO: '' @ parts ! i], Inl (AssertionError 139))"
    using analyzeConstituent_first_failure[of w tkr0 parts _ i] by blast
next
  show "analyzeConstituent ''x/NOUN/NOUN<CAS<NOM>>''
       = ([''MISSING KEPZO: NOUN''], Inl (AssertionError 139))"
    by code_simp
qed

theorem missing_kepzo_witness:
  "split CHR ''/'' ''x/A[B]/C/D'' = ''x'' # [''A[B]'', ''C'', ''D'']
   \<and> CHR ''['' \<notin> set ''C''
   \<and> real_stem ''x'' = Inr ''x''
   \<and> part_step 0 (length [''A[B]'', ''C'', ''D'']) ''A[B]'' = ([], Inr (Node ''A'' [], [Node ''B'' []]))
   \<and> analyzeConstituent ''x/A[B]/C/D'' = ([''MISSING KEPZO: C''], Inl (AssertionError 139))"
proof -
  have h1: "split CHR ''/'' ''x/A[B]/C/D'' = ''x'' # [''A[B]'', ''C'', ''D'']" by code_simp
  have h2: "real_stem ''x'' = Inr ''x''" by code_simp
  have h3: "part_step 0 (length [''A[B]'', ''C'', ''D'']) ''A[B]''
              = ([], Inr (Node ''A'' [], [Node ''B'' []]))"
    by code_simp
  have h4: "\<forall>m < 1. \<exists>r. snd (part_step m (length [''A[B]'', ''C'', ''D''])
                                ([''A[B]'', ''C'', ''D''] ! m)) = Inr r"
    using h3 by simp
  have h5: "(1::nat) + 1 < length [''A[B]'', ''C'', ''D'']
            \<and> CHR ''['' \<notin> set ([''A[B]'', ''C'', ''D''] ! 1)"
    by simp
  from missing_kepzo[of "''x/A[B]/C/D''" "''x''" "[''A[B]'', ''C'', ''D'']" 1] h1 h2 h4 h5
  have "analyzeConstituent ''x/A[B]/C/D''
          = ([''MISSING KEPZO: '' @ [''A[B]'', ''C'', ''D''] ! 1], Inl (AssertionError 139))"
    by blast
  with h1 h2 h3 show ?thesis by simp
qed

text \<open>
  Claim C6 as stated (every such token fails with the missing derivation marker) does
  not hold: in \<^verbatim>\<open>x/[a]/NOUN/NOUN\<close> the position at index 1 is not the last and has no
  \<^verbatim>\<open>[\<close>, but the position at index 0 is refused first, by the raise of line 189, and
  nothing is written to standard error.
\<close>

theorem missing_kepzo_preempted:
  "split CHR ''/'' ''x/[a]/NOUN/NOUN'' = ''x'' # [''[a]'', ''NOUN'', ''NOUN'']
   \<and> CHR ''['' \<notin> set ''NOUN''
   \<and> analyzeConstituent ''x/[a]/NOUN/NOUN'' = ([], Inl (Raised ''data error''))
   \<and> Raised ''data error'' \<noteq> AssertionError 139"
  by code_simp

section \<open>The decorator scanner inside a bracket\<close>

lemma kepzo_char_ok_brackets: "\<not> kepzo_char_ok CHR ''[''" "\<not> kepzo_char_ok CHR '']''"
  by (simp_all add: kepzo_char_ok_def)

lemma kepzo_char_ok_set:
  "kepzo_char_ok c \<longleftrightarrow> c \<in> set ''ABCDEFGHIJKLMNOPQRSTUVWXYZ0123456789_-<>''"
  by (cases c) (simp add: kepzo_char_ok_def; presburger?)

lemma scan_IN_accumulate:
  "\<forall>c \<in> set buf. kepzo_char_ok c \<Longrightarrow>
   scan IN kepzo g (buf @ cs) = scan IN (kepzo @ buf) g cs"
proof (induction buf arbitrary: kepzo)
  case Nil
  then show ?case by simp
next
  case (Cons c buf)
  then have "kepzo_char_ok c" by simp
  with kepzo_char_ok_brackets have "c \<noteq> CHR ''[''" "c \<noteq> CHR '']''" by auto
  with Cons \<open>kepzo_char_ok c\<close> show ?case by simp
qed









section \<open>An empty main category\<close>

lemma split_no_sep: "c \<notin> set s \<Longrightarrow> split c s = [s]"
  by (induction s) auto

lemma split_at_sep: "c \<notin> set s \<Longrightarrow> split c (s @ c # r) = s # split c r"
  by (induction s) auto

lemma nextPos_plain:
  "CHR ''<'' \<notin> set d \<Longrightarrow> CHR ''>'' \<notin> set d \<Longrightarrow> nextPos d 0 = length d"
  by (simp add: nextPos_def str_find_def)

lemma descent_plain:
  assumes "CHR ''<'' \<notin> set d" "CHR ''>'' \<notin> set d"
  shows "descent d 0 (Node [] []) = Inr (length d, Node d [])"
proof (cases d)
  case Nil
  then show ?thesis by (simp add: descent.simps)
next
  case (Cons x xs)
  with assms have "d ! 0 \<noteq> CHR ''<''" "d ! 0 \<noteq> CHR ''>''" "0 \<noteq> length d" by auto
  then have "descent d 0 (Node [] []) = descent d (length d) (Node d [])"
    using nextPos_plain[OF assms] by (subst descent.simps) simp
  then show ?thesis by (simp add: descent.simps)
qed

lemma analyzeKR_plain:
  "CHR ''<'' \<notin> set d \<Longrightarrow> CHR ''>'' \<notin> set d \<Longrightarrow> analyzeKR d = ([], Inr (Node d []))"
  by (simp add: analyzeKR_def descent_plain)

lemma part_step_first_empty:
  "part_step 0 n (CHR ''['' # rest) =
     (case scan IN [] [] rest of
        (lg, Inl e) \<Rightarrow> (lg, Inl e)
      | (lg, Inr (st, g)) \<Rightarrow>
          if st = IN then (lg, Inl (AssertionError 196)) else (lg, Inr (Node [] [], g)))"
proof -
  have p: "str_find (CHR ''['' # rest) CHR ''['' = 0" by (simp add: str_find_def)
  have a: "analyzeKR [] = ([], Inr (Node [] []))" by (simp add: analyzeKR_plain)
  show ?thesis by (simp add: part_step_def p a Let_def split: prod.splits sum.splits)
qed

lemma part_step_later_empty:
  "i \<noteq> 0 \<Longrightarrow> part_step i n (CHR ''['' # rest) =
     ([''SUBCATEGORIZATION (empty main category) IS ONLY ALLOWED AT THE FIRST POSITION: ''
        @ CHR ''['' # rest], Inl (AssertionError 149))"
proof -
  have p: "str_find (CHR ''['' # rest) CHR ''['' = 0" by (simp add: str_find_def)
  assume "i \<noteq> 0"
  then show ?thesis by (simp add: part_step_def p Let_def)
qed

lemma tag_chars:
  assumes "set d \<subseteq> set ''ABCDEFGHIJKLMNOPQRSTUVWXYZ0123456789_-''"
  shows "\<forall>c \<in> set d. kepzo_char_ok c" "CHR ''<'' \<notin> set d" "CHR ''>'' \<notin> set d"
    "CHR ''/'' \<notin> set d"
proof -
  have e: "''ABCDEFGHIJKLMNOPQRSTUVWXYZ0123456789_-<>''
             = ''ABCDEFGHIJKLMNOPQRSTUVWXYZ0123456789_-'' @ ''<>''"
    by simp
  show "\<forall>c \<in> set d. kepzo_char_ok c"
    using assms unfolding kepzo_char_ok_set e set_append by blast
  have "CHR ''<'' \<notin> set ''ABCDEFGHIJKLMNOPQRSTUVWXYZ0123456789_-''" by simp
  with assms show "CHR ''<'' \<notin> set d" by blast
  have "CHR ''>'' \<notin> set ''ABCDEFGHIJKLMNOPQRSTUVWXYZ0123456789_-''" by simp
  with assms show "CHR ''>'' \<notin> set d" by blast
  have "CHR ''/'' \<notin> set ''ABCDEFGHIJKLMNOPQRSTUVWXYZ0123456789_-''" by simp
  with assms show "CHR ''/'' \<notin> set d" by blast
qed

lemma real_stem_plain:
  assumes "set s \<inter> set ''/<>[]{}'' = {}"
  shows "real_stem s = Inr s"
proof -
  from assms have "CHR ''<'' \<notin> set s" "CHR ''>'' \<notin> set s" "CHR ''['' \<notin> set s"
    "CHR '']'' \<notin> set s" "CHR ''{'' \<notin> set s" "CHR ''}'' \<notin> set s" by auto
  moreover from this have "s \<noteq> [] \<Longrightarrow> last s \<noteq> CHR ''}''"
    using last_in_set[of s] by metis
  ultimately show ?thesis by (auto simp: real_stem_def str_find_minus1 Let_def)
qed

lemma empty_first_category_parses:
  assumes s: "set s \<inter> set ''/<>[]{}'' = {}"
    and d: "set d \<subseteq> set ''ABCDEFGHIJKLMNOPQRSTUVWXYZ0123456789_-''"
  shows "analyzeConstituent (s @ ''/['' @ d @ '']'')
           = ([], Inr \<lparr>stem = s, krNodes = [Node [] []], kepzos = [[Node d []]]\<rparr>)"
proof -
  note t = tag_chars[OF d]
  from s have ns: "CHR ''/'' \<notin> set s" by auto
  have "CHR ''/'' \<notin> set (''['' @ d @ '']'')" using t(4) by simp
  then have sp: "split CHR ''/'' (s @ ''/['' @ d @ '']'') = s # [''['' @ d @ '']'']"
    using split_at_sep[OF ns, of "''['' @ d @ '']''"] split_no_sep by simp
  have sc: "scan IN [] [] (d @ '']'') = ([], Inr (OUT, [Node d []]))"
    using scan_IN_accumulate[OF t(1), of "[]" "[]" "'']''"] analyzeKR_plain[OF t(2,3)]
    by simp
  have ps: "part_step 0 (Suc 0) (''['' @ d @ '']'') = ([], Inr (Node [] [], [Node d []]))"
    using part_step_first_empty[of "Suc 0" "d @ '']''"] sc by simp
  have pl: "parts_loop 0 (Suc 0) [''['' @ d @ '']''] \<lparr>stem = s, krNodes = [], kepzos = []\<rparr>
              = ([], Inr \<lparr>stem = s, krNodes = [Node [] []], kepzos = [[Node d []]]\<rparr>)"
    using ps by simp
  have ks: "KRCode_str \<lparr>stem = s, krNodes = [Node [] []], kepzos = [[Node d []]]\<rparr>
              = Inr (s @ ''/['' @ d @ '']'')"
    by (simp add: KRCode_str_def)
  show ?thesis
    using sp real_stem_plain[OF s] pl ks by (simp add: analyzeConstituent_def)
qed

lemma descent_errors:
  "descent code pos leaf = Inl e \<Longrightarrow> e \<in> {IndexError, AssertionError 64, AssertionError 81}"
proof (induction code pos leaf rule: descent.induct)
  case (1 code pos leaf)
  from "1.prems" show ?case
    by (subst (asm) descent.simps)
       (auto split: if_splits sum.splits prod.splits dest: "1.IH")
qed

lemma analyzeKR_errors:
  "analyzeKR code = (lg, Inl e) \<Longrightarrow>
   e \<in> {IndexError, AssertionError 64, AssertionError 81, AssertionError 98}"
  by (auto simp: analyzeKR_def split: sum.splits prod.splits if_splits dest: descent_errors)

lemma scan_errors:
  "scan st kepzo g cs = (lg, Inl e) \<Longrightarrow> e \<noteq> AssertionError 149"
proof (induction st kepzo g cs arbitrary: lg rule: scan.induct)
  case (1 st kepzo kepzoGroup)
  then show ?case by simp
next
  case (2 kepzo kepzoGroup c cs)
  then show ?case by (auto split: if_splits)
next
  case (3 kepzo kepzoGroup c cs)
  show ?case
  proof (cases "c = CHR '']''")
    case True
    show ?thesis
    proof (cases "analyzeKR kepzo")
      case (Pair l1 r1)
      show ?thesis
      proof (cases r1)
        case (Inl e1)
        with Pair True "3.prems" analyzeKR_errors[of kepzo l1 e1] show ?thesis by auto
      next
        case (Inr nd)
        with Pair True "3.prems" obtain l2 where
          "scan OUT [] (kepzoGroup @ [nd]) cs = (l2, Inl e)"
          by (auto split: prod.splits)
        from "3.IH"(1)[OF _ True _ _ this] Pair Inr True show ?thesis by simp
      qed
    qed
  next
    case False
    with "3.prems" "3.IH"(2) show ?thesis by (auto split: if_splits)
  qed
next
  case (4 kepzo kepzoGroup c cs)
  then show ?case by (auto split: if_splits)
qed

lemma str_find_zero: "str_find part c = 0 \<Longrightarrow> \<exists>r. part = c # r"
  by (cases part) (auto simp: str_find_def split: if_splits)

lemma part_step_149:
  assumes "part_step i n part = (lg, Inl (AssertionError 149))"
  shows "i \<noteq> 0 \<and> (part = [] \<or> (\<exists>r. part = CHR ''['' # r))"
proof -
  let ?p = "str_find part CHR ''[''"
  let ?q = "if ?p = - 1 then int (length part) else ?p"
  have "?q = 0 \<and> i \<noteq> 0"
  proof (rule ccontr)
    assume n: "\<not> (?q = 0 \<and> i \<noteq> 0)"
    from assms n have c: "\<not> (int i \<noteq> int n - 1 \<and> ?p = - 1)"
      by (auto simp: part_step_def Let_def split: if_splits)
    show False
    proof (cases "analyzeKR (take (nat ?q) part)")
      case (Pair l1 r1)
      show ?thesis
      proof (cases r1)
        case (Inl e1)
        with Pair assms n c analyzeKR_errors[of "take (nat ?q) part" l1 e1] show ?thesis
          by (auto simp: part_step_def Let_def split: if_splits)
      next
        case (Inr nd)
        show ?thesis
        proof (cases "scan START [] [] part")
          case p2: (Pair l2 r2)
          show ?thesis
          proof (cases r2)
            case (Inl e2)
            with Pair Inr p2 assms n c scan_errors[of START "[]" "[]" part l2 e2] show ?thesis
              by (auto simp: part_step_def Let_def split: if_splits)
          next
            case r: (Inr sg)
            with Pair Inr p2 assms n c show ?thesis
              by (auto simp: part_step_def Let_def split: if_splits prod.splits)
          qed
        qed
      qed
    qed
  qed
  then show ?thesis using str_find_zero[of part "CHR ''[''"] by (auto split: if_splits)
qed

lemma parts_loop_failure_source:
  "parts_loop i n rest k0 = (lg, Inl e) \<Longrightarrow>
   \<exists>j < length rest. part_step (i + j) n (rest ! j) = (lg, Inl e)"
proof (induction rest arbitrary: i k0 lg)
  case Nil
  then show ?case by simp
next
  case (Cons part rest)
  show ?case
  proof (cases "part_step i n part")
    case (Pair l1 r1)
    show ?thesis
    proof (cases r1)
      case (Inl e1)
      with Pair Cons.prems have "part_step (i + 0) n ((part # rest) ! 0) = (lg, Inl e)" by simp
      then show ?thesis by blast
    next
      case (Inr r)
      obtain nd g where r: "r = (nd, g)" by (cases r)
      from part_step_props[of i n part l1 nd g] Pair Inr r have l1: "l1 = []" by simp
      define K where "K = (let k1 = k0\<lparr>krNodes := krNodes k0 @ [nd]\<rparr>
                           in if length g > 0 then k1\<lparr>kepzos := kepzos k1 @ [g]\<rparr> else k1)"
      from Cons.prems Pair Inr r l1 have "parts_loop (i + 1) n rest K = (lg, Inl e)"
        by (auto simp: K_def Let_def split: prod.splits)
      from Cons.IH[OF this] obtain j where
        j: "j < length rest" "part_step (i + 1 + j) n (rest ! j) = (lg, Inl e)" by blast
      then have "Suc j < length (part # rest)
                 \<and> part_step (i + Suc j) n ((part # rest) ! Suc j) = (lg, Inl e)"
        by simp
      then show ?thesis by blast
    qed
  qed
qed

lemma real_stem_errors: "real_stem s = Inl e \<Longrightarrow> e \<noteq> AssertionError 149"
  by (auto simp: real_stem_def Let_def split: if_splits)

lemma analyzeConstituent_149:
  assumes sp: "split CHR ''/'' w = tkr0 # parts"
    and f: "analyzeConstituent w = (lg, Inl (AssertionError 149))"
  shows "\<exists>i. 1 \<le> i \<and> i < length parts \<and> (parts ! i = [] \<or> (\<exists>r. parts ! i = CHR ''['' # r))"
proof -
  from f sp obtain rs where rs: "real_stem tkr0 = Inr rs"
    using real_stem_errors[of tkr0] by (cases "real_stem tkr0") (auto simp: analyzeConstituent_def)
  let ?k0 = "\<lparr>stem = rs, krNodes = [], kepzos = []\<rparr>"
  from f sp rs have "parts_loop 0 (length parts) parts ?k0 = (lg, Inl (AssertionError 149))"
    by (auto simp: analyzeConstituent_def KRCode_str_def Let_def
             split: prod.splits sum.splits if_splits)
  from parts_loop_failure_source[OF this] obtain j where
    j: "j < length parts" "part_step j (length parts) (parts ! j) = (lg, Inl (AssertionError 149))"
    by auto
  from part_step_149[OF j(2)] j(1) show ?thesis by (intro exI[of _ j]) auto
qed

lemma part_step_empty_main:
  assumes "i \<noteq> 0" and "i < n" and "part = [] \<or> (\<exists>r. part = CHR ''['' # r)"
  shows "part_step i n part =
     (if part = [] \<and> i + 1 < n
      then ([''MISSING KEPZO: ''], Inl (AssertionError 139))
      else ([''SUBCATEGORIZATION (empty main category) IS ONLY ALLOWED AT THE FIRST POSITION: ''
               @ part], Inl (AssertionError 149)))"
proof (cases "part = []")
  case True
  have "str_find [] CHR ''['' = - 1" by (simp add: str_find_def)
  with True assms(1,2) show ?thesis by (auto simp: part_step_def Let_def)
next
  case False
  with assms(3) obtain r where "part = CHR ''['' # r" by auto
  with part_step_later_empty[OF assms(1), of n r] False show ?thesis by simp
qed

text \<open>
  Claim C5, as the code has it. The main category of a part is empty when the part
  starts with \<^verbatim>\<open>[\<close> or is empty (line 143, \<^verbatim>\<open>p==0\<close>).
  \<^item> A part at index 0 that starts with \<^verbatim>\<open>[\<close> yields the empty node and the decorators
    the scanner reads, and fails only as the scanner decides; a token that the assert
    of line 149 refuses has an empty main category at some index \<open>i \<ge> 1\<close>; and every
    token \<^verbatim>\<open>stem/[D]\<close>, with a stem free of \<^verbatim>\<open>/ < > [ ] { }\<close> and \<open>D\<close> over A-Z, 0-9,
    underscore and hyphen, parses successfully.
  \<^item> An empty main category at an index \<open>i \<ge> 1\<close> always makes decoding fail. When the
    stem passes its checks and every earlier part is processed without error, the
    failure is the assert of line 149 (the grammar violation of the emptiness check),
    after its diagnostic; except that an empty part that is not the last one fails the
    check of line 139 first (the missing derivation marker, after its diagnostic).
\<close>

theorem first_position_exemption:
  "part_step 0 n (CHR ''['' # rest) =
     (case scan IN [] [] rest of
        (lg, Inl e) \<Rightarrow> (lg, Inl e)
      | (lg, Inr (st, g)) \<Rightarrow>
          if st = IN then (lg, Inl (AssertionError 196)) else (lg, Inr (Node [] [], g)))
   \<and> (split CHR ''/'' w = tkr0 # parts
        \<and> analyzeConstituent w = (lg', Inl (AssertionError 149))
       \<longrightarrow> (\<exists>i. 1 \<le> i \<and> i < length parts
                \<and> (parts ! i = [] \<or> (\<exists>r. parts ! i = CHR ''['' # r))))
   \<and> (set s \<inter> set ''/<>[]{}'' = {}
        \<and> set d \<subseteq> set ''ABCDEFGHIJKLMNOPQRSTUVWXYZ0123456789_-''
       \<longrightarrow> analyzeConstituent (s @ ''/['' @ d @ '']'')
             = ([], Inr \<lparr>stem = s, krNodes = [Node [] []], kepzos = [[Node d []]]\<rparr>))
   \<and> (split CHR ''/'' w = tkr0 # parts \<and> 1 \<le> i \<and> i < length parts
        \<and> (parts ! i = [] \<or> (\<exists>r. parts ! i = CHR ''['' # r))
       \<longrightarrow> (\<exists>lg e. analyzeConstituent w = (lg, Inl e))
           \<and> ((\<exists>rs. real_stem tkr0 = Inr rs)
                \<and> (\<forall>m < i. \<exists>r. snd (part_step m (length parts) (parts ! m)) = Inr r)
              \<longrightarrow> analyzeConstituent w =
                    (if parts ! i = [] \<and> i + 1 < length parts
                     then ([''MISSING KEPZO: ''], Inl (AssertionError 139))
                     else ([''SUBCATEGORIZATION (empty main category) IS ONLY ALLOWED AT THE FIRST POSITION: ''
                              @ parts ! i], Inl (AssertionError 149)))))"
proof -
  have a: "part_step 0 n (CHR ''['' # rest) =
     (case scan IN [] [] rest of
        (lg, Inl e) \<Rightarrow> (lg, Inl e)
      | (lg, Inr (st, g)) \<Rightarrow>
          if st = IN then (lg, Inl (AssertionError 196)) else (lg, Inr (Node [] [], g)))"
    by (rule part_step_first_empty)
  have b: "\<exists>i. 1 \<le> i \<and> i < length parts
                \<and> (parts ! i = [] \<or> (\<exists>r. parts ! i = CHR ''['' # r))"
    if "split CHR ''/'' w = tkr0 # parts
        \<and> analyzeConstituent w = (lg', Inl (AssertionError 149))"
    using that analyzeConstituent_149[of w tkr0 parts lg'] by blast
  have c: "analyzeConstituent (s @ ''/['' @ d @ '']'')
             = ([], Inr \<lparr>stem = s, krNodes = [Node [] []], kepzos = [[Node d []]]\<rparr>)"
    if "set s \<inter> set ''/<>[]{}'' = {}
        \<and> set d \<subseteq> set ''ABCDEFGHIJKLMNOPQRSTUVWXYZ0123456789_-''"
    using that empty_first_category_parses[of s d] by blast
  have d: "(\<exists>lg e. analyzeConstituent w = (lg, Inl e))
           \<and> ((\<exists>rs. real_stem tkr0 = Inr rs)
                \<and> (\<forall>m < i. \<exists>r. snd (part_step m (length parts) (parts ! m)) = Inr r)
              \<longrightarrow> analyzeConstituent w =
                    (if parts ! i = [] \<and> i + 1 < length parts
                     then ([''MISSING KEPZO: ''], Inl (AssertionError 139))
                     else ([''SUBCATEGORIZATION (empty main category) IS ONLY ALLOWED AT THE FIRST POSITION: ''
                              @ parts ! i], Inl (AssertionError 149))))"
    if h: "split CHR ''/'' w = tkr0 # parts \<and> 1 \<le> i \<and> i < length parts
        \<and> (parts ! i = [] \<or> (\<exists>r. parts ! i = CHR ''['' # r))"
  proof -
    from h have i0: "i \<noteq> 0" and il: "i < length parts" by auto
    let ?out = "if parts ! i = [] \<and> i + 1 < length parts
                then ([''MISSING KEPZO: ''], Inl (AssertionError 139))
                else ([''SUBCATEGORIZATION (empty main category) IS ONLY ALLOWED AT THE FIRST POSITION: ''
                         @ parts ! i], Inl (AssertionError 149))"
    from h part_step_empty_main[OF i0 il, of "parts ! i"]
    have ps: "part_step i (length parts) (parts ! i) = ?out" by blast
    then obtain lg0 e0 where ps': "part_step i (length parts) (parts ! i) = (lg0, Inl e0)"
      by (auto split: if_splits)
    with h have "\<exists>lg e. analyzeConstituent w = (lg, Inl e)"
      using analyzeConstituent_any_failure[of w tkr0 parts i e0] by simp
    moreover have "analyzeConstituent w = ?out"
      if "(\<exists>rs. real_stem tkr0 = Inr rs)
          \<and> (\<forall>m < i. \<exists>r. snd (part_step m (length parts) (parts ! m)) = Inr r)"
      using that h ps ps' analyzeConstituent_first_failure[of w tkr0 parts _ i lg0 e0]
      by auto
    ultimately show ?thesis by blast
  qed
  from a b c d show ?thesis by blast
qed

theorem first_position_exemption_witness:
  "set ''x'' \<inter> set ''/<>[]{}'' = {}
   \<and> set ''A'' \<subseteq> set ''ABCDEFGHIJKLMNOPQRSTUVWXYZ0123456789_-''
   \<and> analyzeConstituent ''x/[A]''
       = ([], Inr \<lparr>stem = ''x'', krNodes = [Node [] []], kepzos = [[Node ''A'' []]]\<rparr>)
   \<and> split CHR ''/'' ''x/A[B]/[C]D'' = ''x'' # [''A[B]'', ''[C]D'']
   \<and> real_stem ''x'' = Inr ''x''
   \<and> part_step 0 (length [''A[B]'', ''[C]D'']) ''A[B]'' = ([], Inr (Node ''A'' [], [Node ''B'' []]))
   \<and> analyzeConstituent ''x/A[B]/[C]D'' =
       ([''SUBCATEGORIZATION (empty main category) IS ONLY ALLOWED AT THE FIRST POSITION: [C]D''],
        Inl (AssertionError 149))
   \<and> (\<exists>i. 1 \<le> i \<and> i < length [''A[B]'', ''[C]D'']
          \<and> ([''A[B]'', ''[C]D''] ! i = [] \<or> (\<exists>r. [''A[B]'', ''[C]D''] ! i = CHR ''['' # r)))
   \<and> split CHR ''/'' ''x/A[B]//C'' = ''x'' # [''A[B]'', [], ''C'']
   \<and> part_step 0 (length [''A[B]'', [], ''C'']) ''A[B]'' = ([], Inr (Node ''A'' [], [Node ''B'' []]))
   \<and> analyzeConstituent ''x/A[B]//C'' = ([''MISSING KEPZO: ''], Inl (AssertionError 139))"
proof -
  have h1: "set ''x'' \<inter> set ''/<>[]{}'' = {}
            \<and> set ''A'' \<subseteq> set ''ABCDEFGHIJKLMNOPQRSTUVWXYZ0123456789_-''"
    by simp
  have h2: "split CHR ''/'' ''x/A[B]/[C]D'' = ''x'' # [''A[B]'', ''[C]D'']" by code_simp
  have h3: "real_stem ''x'' = Inr ''x''" by code_simp
  have h4: "part_step 0 (length [''A[B]'', ''[C]D'']) ''A[B]''
              = ([], Inr (Node ''A'' [], [Node ''B'' []]))"
    by code_simp
  have h5: "\<forall>m < 1. \<exists>r. snd (part_step m (length [''A[B]'', ''[C]D''])
                                ([''A[B]'', ''[C]D''] ! m)) = Inr r"
    using h4 by simp
  have h6: "(1::nat) \<le> 1 \<and> (1::nat) < length [''A[B]'', ''[C]D'']
            \<and> ([''A[B]'', ''[C]D''] ! 1 = [] \<or> (\<exists>r. [''A[B]'', ''[C]D''] ! 1 = CHR ''['' # r))"
    by simp
  have g2: "split CHR ''/'' ''x/A[B]//C'' = ''x'' # [''A[B]'', [], ''C'']" by code_simp
  have g4: "part_step 0 (length [''A[B]'', [], ''C'']) ''A[B]''
              = ([], Inr (Node ''A'' [], [Node ''B'' []]))"
    by code_simp
  have g5: "\<forall>m < 1. \<exists>r. snd (part_step m (length [''A[B]'', [], ''C''])
                                ([''A[B]'', [], ''C''] ! m)) = Inr r"
    using g4 by simp
  have g6: "(1::nat) \<le> 1 \<and> (1::nat) < length [''A[B]'', [], ''C'']
            \<and> ([''A[B]'', [], ''C''] ! 1 = [] \<or> (\<exists>r. [''A[B]'', [], ''C''] ! 1 = CHR ''['' # r))"
    by simp
  from first_position_exemption[where s = "''x''" and d = "''A''"] h1
  have c1: "analyzeConstituent (''x'' @ ''/['' @ ''A'' @ '']'')
       = ([], Inr \<lparr>stem = ''x'', krNodes = [Node [] []], kepzos = [[Node ''A'' []]]\<rparr>)"
    by blast
  note T = first_position_exemption[where w = "''x/A[B]/[C]D''" and ?tkr0.0 = "''x''"
             and parts = "[''A[B]'', ''[C]D'']" and i = 1]
  from T h2 h3 h5 h6
  have c2: "analyzeConstituent ''x/A[B]/[C]D'' =
      (if [''A[B]'', ''[C]D''] ! 1 = [] \<and> (1::nat) + 1 < length [''A[B]'', ''[C]D'']
       then ([''MISSING KEPZO: ''], Inl (AssertionError 139))
       else ([''SUBCATEGORIZATION (empty main category) IS ONLY ALLOWED AT THE FIRST POSITION: ''
                @ [''A[B]'', ''[C]D''] ! 1], Inl (AssertionError 149)))"
    by blast
  then have c2': "analyzeConstituent ''x/A[B]/[C]D'' =
       ([''SUBCATEGORIZATION (empty main category) IS ONLY ALLOWED AT THE FIRST POSITION: [C]D''],
        Inl (AssertionError 149))"
    by simp
  from first_position_exemption[where w = "''x/A[B]/[C]D''" and ?tkr0.0 = "''x''"
         and parts = "[''A[B]'', ''[C]D'']"
         and lg' = "[''SUBCATEGORIZATION (empty main category) IS ONLY ALLOWED AT THE FIRST POSITION: [C]D'']"]
       h2 c2'
  have c3: "\<exists>i. 1 \<le> i \<and> i < length [''A[B]'', ''[C]D'']
          \<and> ([''A[B]'', ''[C]D''] ! i = [] \<or> (\<exists>r. [''A[B]'', ''[C]D''] ! i = CHR ''['' # r))"
    by blast
  from first_position_exemption[where w = "''x/A[B]//C''" and ?tkr0.0 = "''x''"
         and parts = "[''A[B]'', [], ''C'']" and i = 1] g2 h3 g5 g6
  have c4: "analyzeConstituent ''x/A[B]//C'' =
      (if [''A[B]'', [], ''C''] ! 1 = [] \<and> (1::nat) + 1 < length [''A[B]'', [], ''C'']
       then ([''MISSING KEPZO: ''], Inl (AssertionError 139))
       else ([''SUBCATEGORIZATION (empty main category) IS ONLY ALLOWED AT THE FIRST POSITION: ''
                @ [''A[B]'', [], ''C''] ! 1], Inl (AssertionError 149)))"
    by blast
  then have c4': "analyzeConstituent ''x/A[B]//C''
                    = ([''MISSING KEPZO: ''], Inl (AssertionError 139))"
    by simp
  from c1 have c1': "analyzeConstituent ''x/[A]''
       = ([], Inr \<lparr>stem = ''x'', krNodes = [Node [] []], kepzos = [[Node ''A'' []]]\<rparr>)"
    by simp
  from h1 c1' h2 h3 h4 c2' c3 g2 g4 c4' show ?thesis by blast
qed

text \<open>
  Claim C5 as stated does not hold. An empty main category at an index \<open>i \<ge> 1\<close> does
  not always fail with the grammar violation: in \<^verbatim>\<open>x/NOUN/[A]B\<close> the part at index 0
  fails first, and in \<^verbatim>\<open>x/A[B]//C\<close> the empty part at index 1 itself fails the check of
  line 139, both with the missing derivation marker and its diagnostic. And a token
  whose part at index 0 has an empty main category before \<^verbatim>\<open>[\<close> does not always parse:
  \<^verbatim>\<open>x/[a]\<close> meets the raise of line 189 in the scanner.
\<close>

theorem later_empty_category_preempted:
  "split CHR ''/'' ''x/NOUN/[A]B'' = ''x'' # [''NOUN'', ''[A]B'']
   \<and> analyzeConstituent ''x/NOUN/[A]B'' = ([''MISSING KEPZO: NOUN''], Inl (AssertionError 139))
   \<and> split CHR ''/'' ''x/A[B]//C'' = ''x'' # [''A[B]'', [], ''C'']
   \<and> analyzeConstituent ''x/A[B]//C'' = ([''MISSING KEPZO: ''], Inl (AssertionError 139))
   \<and> AssertionError 139 \<noteq> AssertionError 149
   \<and> split CHR ''/'' ''x/[a]'' = ''x'' # [''[a]'']
   \<and> analyzeConstituent ''x/[a]'' = ([], Inl (Raised ''data error''))"
  by code_simp

section \<open>Termination of the tree parser\<close>

lemma descent_bounds:
  "pos \<le> length code \<Longrightarrow> descent code pos leaf = Inr (p, l) \<Longrightarrow> pos \<le> p \<and> p \<le> length code"
proof (induction code pos leaf arbitrary: p l rule: descent.induct)
  case (1 code pos leaf)
  note eq = descent.simps[of code pos leaf]
  show ?case
  proof (cases "pos = length code")
    case True
    with "1.prems" eq show ?thesis by simp
  next
    case ne: False
    with "1.prems" have lt: "pos < length code" by simp
    show ?thesis
    proof (cases "code ! pos = CHR ''<''")
      case True
      show ?thesis
      proof (cases "nvalue leaf = []")
        case True
        with "1.prems" eq ne lt \<open>code ! pos = CHR ''<''\<close> show ?thesis by simp
      next
        case nv: False
        from "1.prems" eq ne lt True nv obtain p1 l1 where
          r1: "descent code (pos + 1) (Node [] []) = Inr (p1, l1)" and
          r2: "descent code p1 (Node (nvalue leaf) (children leaf @ [l1])) = Inr (p, l)"
          by (auto split: sum.splits prod.splits)
        have b1: "pos + 1 \<le> p1 \<and> p1 \<le> length code"
          using "1.IH"(1)[OF ne _ True nv _ r1] lt by simp
        then have "p1 \<le> p \<and> p \<le> length code"
          using "1.IH"(2)[OF ne _ True nv r1 refl _ r2] lt by simp
        with b1 show ?thesis by simp
      qed
    next
      case nl: False
      show ?thesis
      proof (cases "code ! pos = CHR ''>''")
        case True
        with "1.prems" eq ne lt nl show ?thesis by auto
      next
        case ng: False
        note nb = nextPos_bounds[OF lt nl ng]
        from "1.prems" eq ne lt nl ng have
          nv: "nvalue leaf = []" and
          r: "descent code (nextPos code pos)
                (Node (take (nextPos code pos - pos) (drop pos code)) (children leaf))
              = Inr (p, l)"
          by (auto split: if_splits)
        have "nextPos code pos \<le> p \<and> p \<le> length code"
          using "1.IH"(3)[OF ne _ nl ng _ _ r] lt nv nb by simp
        with nb show ?thesis by simp
      qed
    qed
  qed
qed

lemma descent_fuel_enough:
  "length code - pos < fuel \<Longrightarrow> descent_fuel fuel code pos leaf = Some (descent code pos leaf)"
proof (induction code pos leaf arbitrary: fuel rule: descent.induct)
  case (1 code pos leaf)
  from "1.prems" obtain f where f: "fuel = Suc f" by (cases fuel) auto
  note eq = descent.simps[of code pos leaf]
  show ?case
  proof (cases "pos = length code \<or> length code < pos")
    case True
    then show ?thesis using eq f by auto
  next
    case False
    then have ne: "pos \<noteq> length code" and nlt: "\<not> length code < pos" and lt: "pos < length code"
      by auto
    from "1.prems" f lt have fl: "length code - (pos + 1) < f" by simp
    show ?thesis
    proof (cases "code ! pos = CHR ''<''")
      case True
      show ?thesis
      proof (cases "nvalue leaf = []")
        case True
        with eq f ne nlt \<open>code ! pos = CHR ''<''\<close> show ?thesis by simp
      next
        case nv: False
        have i1: "descent_fuel f code (pos + 1) (Node [] [])
                    = Some (descent code (pos + 1) (Node [] []))"
          using "1.IH"(1)[OF ne nlt True nv fl] .
        show ?thesis
        proof (cases "descent code (pos + 1) (Node [] [])")
          case (Inl e)
          with i1 eq f ne nlt True nv show ?thesis by simp
        next
          case (Inr r)
          obtain p1 l1 where r: "r = (p1, l1)" by (cases r)
          from descent_bounds[of "pos + 1" code "Node [] []" p1 l1] Inr r lt
          have "pos + 1 \<le> p1" by simp
          with fl have "length code - p1 < f" by simp
          from "1.IH"(2)[OF ne nlt True nv Inr r[symmetric] this]
          show ?thesis using i1 Inr r eq f ne nlt True nv by simp
        qed
      qed
    next
      case nl: False
      show ?thesis
      proof (cases "code ! pos = CHR ''>''")
        case True
        with eq f ne nlt nl show ?thesis by simp
      next
        case ng: False
        show ?thesis
        proof (cases "nvalue leaf = []")
          case False
          with eq f ne nlt nl ng show ?thesis by simp
        next
          case True
          from nextPos_bounds[OF lt nl ng] fl have "length code - nextPos code pos < f" by arith
          from "1.IH"(3)[OF ne nlt nl ng _ this] True
          show ?thesis using eq f ne nlt nl ng by simp
        qed
      qed
    qed
  qed
qed

text \<open>
  Claim C9. For every fragment and every start offset not beyond its end, descent
  returns: a recursion of depth \<open>length code - pos + 1\<close> is enough, because every call
  that descent makes is at a strictly larger offset, so that \<open>length code - pos\<close>
  decreases (the offset after a value is \<open>nextPos\<close>, the offset into a child is
  \<open>pos + 1\<close>, and the offset after a child is the one its parse returned, which is
  between the offset given and the end). And when analyzeKR succeeds, the offset that
  the top-level call of descent returned is the length of the fragment.
\<close>

theorem descent_terminates:
  "(pos \<le> length code
      \<longrightarrow> descent_fuel (length code - pos + 1) code pos leaf = Some (descent code pos leaf))
   \<and> (pos \<le> length code \<and> descent code pos leaf = Inr (p, l)
      \<longrightarrow> pos \<le> p \<and> p \<le> length code)
   \<and> (pos < length code \<and> code ! pos \<noteq> CHR ''<'' \<and> code ! pos \<noteq> CHR ''>''
      \<longrightarrow> length code - nextPos code pos < length code - pos)
   \<and> (analyzeKR code = (lg, Inr root)
      \<longrightarrow> descent code 0 (Node [] []) = Inr (length code, root))"
proof -
  have a: "descent_fuel (length code - pos + 1) code pos leaf = Some (descent code pos leaf)"
    by (rule descent_fuel_enough) simp
  have b: "pos \<le> p \<and> p \<le> length code"
    if "pos \<le> length code \<and> descent code pos leaf = Inr (p, l)"
    using that descent_bounds by blast
  have c: "length code - nextPos code pos < length code - pos"
    if "pos < length code \<and> code ! pos \<noteq> CHR ''<'' \<and> code ! pos \<noteq> CHR ''>''"
    using that nextPos_bounds[of pos code] by arith
  have d: "descent code 0 (Node [] []) = Inr (length code, root)"
    if "analyzeKR code = (lg, Inr root)"
    using that by (auto simp: analyzeKR_def split: sum.splits prod.splits if_splits)
  from a b c d show ?thesis by blast
qed

theorem descent_terminates_witness:
  "(2::nat) \<le> length ''A<B<C>>''
   \<and> descent_fuel (length ''A<B<C>>'' - 2 + 1) ''A<B<C>>'' 2 (Node [] [])
       = Some (Inr (7, Node ''B'' [Node ''C'' []]))
   \<and> descent ''A<B<C>>'' 2 (Node [] []) = Inr (7, Node ''B'' [Node ''C'' []])
   \<and> (2::nat) \<le> 7 \<and> (7::nat) \<le> length ''A<B<C>>''
   \<and> length ''A<B<C>>'' - nextPos ''A<B<C>>'' 2 < length ''A<B<C>>'' - 2
   \<and> analyzeKR ''A<B<C>>'' = ([], Inr (Node ''A'' [Node ''B'' [Node ''C'' []]]))
   \<and> descent ''A<B<C>>'' 0 (Node [] [])
       = Inr (length ''A<B<C>>'', Node ''A'' [Node ''B'' [Node ''C'' []]])"
proof -
  have h1: "(2::nat) \<le> length ''A<B<C>>''" by simp
  have h2: "descent ''A<B<C>>'' 2 (Node [] []) = Inr (7, Node ''B'' [Node ''C'' []])"
    by code_simp
  have h3: "(2::nat) < length ''A<B<C>>'' \<and> ''A<B<C>>'' ! 2 \<noteq> CHR ''<''
            \<and> ''A<B<C>>'' ! 2 \<noteq> CHR ''>''"
    by simp
  have h4: "analyzeKR ''A<B<C>>'' = ([], Inr (Node ''A'' [Node ''B'' [Node ''C'' []]]))"
    by code_simp
  note T = descent_terminates[of 2 "''A<B<C>>''" "Node [] []" 7 "Node ''B'' [Node ''C'' []]"
             "[]" "Node ''A'' [Node ''B'' [Node ''C'' []]]"]
  from T h1 have c1: "descent_fuel (length ''A<B<C>>'' - 2 + 1) ''A<B<C>>'' 2 (Node [] [])
       = Some (descent ''A<B<C>>'' 2 (Node [] []))"
    by blast
  from T h1 h2 have c2: "(2::nat) \<le> 7 \<and> (7::nat) \<le> length ''A<B<C>>''" by blast
  from T h3 have c3: "length ''A<B<C>>'' - nextPos ''A<B<C>>'' 2 < length ''A<B<C>>'' - 2"
    by blast
  from T h4 have c4: "descent ''A<B<C>>'' 0 (Node [] [])
       = Inr (length ''A<B<C>>'', Node ''A'' [Node ''B'' [Node ''C'' []]])"
    by blast
  from h1 h2 h4 c1 c2 c3 c4 show ?thesis by simp
qed

section \<open>Default values\<close>

lemma set_default_present: "map_of d k \<noteq> None \<Longrightarrow> set_default k v d = d"
  by (auto simp: set_default_def)

lemma set_default_keep:
  "map_of d k = Some v \<Longrightarrow> map_of (set_default k' v' d) k = Some v"
  by (auto simp: map_of_set_default)

lemma map_of_level_defaults_keep:
  "map_of d k = Some v \<Longrightarrow> map_of (level_defaults cat d) k = Some v"
  by (simp add: level_defaults_def Let_def set_default_keep)

lemma set_default_has: "map_of (set_default k v d) k \<noteq> None"
  by (simp add: map_of_set_default)

lemma set_default_has_other:
  "map_of d k \<noteq> None \<Longrightarrow> map_of (set_default k' v' d) k \<noteq> None"
  by (simp add: map_of_set_default)

lemma level_defaults_has:
  "cat = VStr ''NOUN'' \<Longrightarrow> k \<in> {''CAS'', ''NUM'', ''ANP'', ''DEF'', ''POSS''} \<Longrightarrow>
   map_of (level_defaults cat d) k \<noteq> None"
  "map_of d ''CAT'' = Some cat \<Longrightarrow> cat = VStr ''ADJ'' \<Longrightarrow>
   map_of (level_defaults cat d) ''CAS'' \<noteq> None"
proof -
  assume n: "cat = VStr ''NOUN''" and k: "k \<in> {''CAS'', ''NUM'', ''ANP'', ''DEF'', ''POSS''}"
  let ?d1 = "set_default ''POSS'' (VStr ''0'')
              (set_default ''DEF'' (VStr ''0'')
                (set_default ''ANP'' (VStr ''0'')
                  (set_default ''NUM'' (VStr ''SING'')
                    (set_default ''CAS'' (VStr ''NOM'') d))))"
  from k have "map_of ?d1 k \<noteq> None"
    by (elim insertE emptyE) (simp_all only: set_default_has set_default_has_other not_False_eq_True)
  then show "map_of (level_defaults cat d) k \<noteq> None"
    using n set_default_has_other[of ?d1 k "''CAS''" "VStr ''NOM''"]
    by (simp add: level_defaults_def Let_def)
next
  assume "map_of d ''CAT'' = Some cat" "cat = VStr ''ADJ''"
  then show "map_of (level_defaults cat d) ''CAS'' \<noteq> None"
    by (simp add: level_defaults_def Let_def set_default_has)
qed

lemma level_defaults_fixed:
  assumes c: "map_of d ''CAT'' = Some cat"
    and c': "map_of d' ''CAT'' = Some cat"
    and sup: "\<And>k. map_of (level_defaults cat d) k \<noteq> None \<Longrightarrow> map_of d' k \<noteq> None"
  shows "level_defaults cat d' = d'"
proof (cases "cat = VStr ''NOUN''")
  case True
  from level_defaults_has(1)[OF True, of _ d] sup
  have "map_of d' ''CAS'' \<noteq> None" "map_of d' ''NUM'' \<noteq> None" "map_of d' ''ANP'' \<noteq> None"
    "map_of d' ''DEF'' \<noteq> None" "map_of d' ''POSS'' \<noteq> None"
    by blast+
  with True c' show ?thesis
    by (simp add: level_defaults_def Let_def set_default_present)
next
  case False
  show ?thesis
  proof (cases "cat = VStr ''ADJ''")
    case True
    from level_defaults_has(2)[OF c True] sup have "map_of d' ''CAS'' \<noteq> None" by blast
    with True c' show ?thesis by (simp add: level_defaults_def Let_def set_default_present)
  next
    case nadj: False
    with False c' show ?thesis by (simp add: level_defaults_def Let_def)
  qed
qed

lemma fill_def_values_again:
  "fill_def_values d = Inr d' \<Longrightarrow> fill_def_values d' = Inr d'"
proof (induction d arbitrary: d' rule: fill_def_values.induct)
  case (1 d)
  from "1.prems" obtain cat where cat: "map_of d ''CAT'' = Some cat"
    by (subst (asm) fill_def_values.simps) (auto split: option.splits)
  define d2 where "d2 = level_defaults cat d"
  have cat2: "map_of d2 ''CAT'' = Some cat"
    unfolding d2_def using cat by (rule map_of_level_defaults_keep)
  show ?case
  proof (cases "map_of d2 ''SRC''")
    case None
    with "1.prems" cat have d': "d' = d2"
      by (subst (asm) fill_def_values.simps) (simp add: d2_def Let_def)
    have "level_defaults cat d2 = d2"
      using level_defaults_fixed[OF cat cat2] by (simp add: d2_def)
    with None cat2 d' show ?thesis
      by (subst fill_def_values.simps) (simp add: Let_def)
  next
    case (Some v)
    with "1.prems" cat obtain src stemDict filled where
      v: "v = VDict src" and st: "map_of src ''STEM'' = Some (VDict stemDict)" and
      fs: "fill_def_values stemDict = Inr filled" and
      d': "d' = AList.update ''SRC'' (VDict (AList.update ''STEM'' (VDict filled) src)) d2"
      by (subst (asm) fill_def_values.simps)
         (auto simp: d2_def Let_def split: option.splits val.splits sum.splits)
    from Some v have sv: "map_of d2 ''SRC'' = Some (VDict src)" by simp
    from "1.IH"[OF cat d2_def sv refl st refl fs]
    have ih: "fill_def_values filled = Inr filled" .
    have cat': "map_of d' ''CAT'' = Some cat" using cat2 by (simp add: d' update_conv')
    have "level_defaults cat d' = d'"
    proof (rule level_defaults_fixed[OF cat cat'])
      fix k assume "map_of (level_defaults cat d) k \<noteq> None"
      then show "map_of d' k \<noteq> None" by (simp add: d' d2_def update_conv')
    qed
    moreover have "map_of d' ''SRC'' = Some (VDict (AList.update ''STEM'' (VDict filled) src))"
      by (simp add: d' update_conv')
    moreover have "map_of (AList.update ''STEM'' (VDict filled) src) ''STEM'' = Some (VDict filled)"
      by (simp add: update_conv')
    moreover have "AList.update ''SRC''
        (VDict (AList.update ''STEM'' (VDict filled) (AList.update ''STEM'' (VDict filled) src))) d'
        = d'"
      by (simp add: d')
    ultimately show ?thesis using cat' ih
      by (subst fill_def_values.simps) (simp add: Let_def)
  qed
qed


lemma fill_def_values_returns:
  "cat_and_stem_at_every_level d \<Longrightarrow> \<exists>d'. fill_def_values d = Inr d'"
proof (induction d rule: fill_def_values.induct)
  case (1 d)
  from "1.prems"[unfolded cat_and_stem_at_every_level.simps[of d]]
  obtain cat where cat: "map_of d ''CAT'' = Some cat"
    by auto
  define d2 where "d2 = level_defaults cat d"
  have src: "map_of d2 ''SRC'' = map_of d ''SRC''"
    by (simp add: d2_def map_of_level_defaults_other)
  show ?case
  proof (cases "map_of d ''SRC''")
    case None
    with cat src show ?thesis
      by (subst fill_def_values.simps) (simp add: d2_def Let_def)
  next
    case (Some v)
    with "1.prems"[unfolded cat_and_stem_at_every_level.simps[of d]]
    have "case v of
            VDict src \<Rightarrow>
              (case map_of src ''STEM'' of
                 Some (VDict stemDict) \<Rightarrow> cat_and_stem_at_every_level stemDict
               | _ \<Rightarrow> False)
          | _ \<Rightarrow> False"
      by simp
    then obtain src' where v: "v = VDict src'" and
      c1: "case map_of src' ''STEM'' of
             Some (VDict stemDict) \<Rightarrow> cat_and_stem_at_every_level stemDict
           | _ \<Rightarrow> False"
      by (cases v) auto
    from c1 obtain y where y: "map_of src' ''STEM'' = Some y" and
      c2: "case y of VDict stemDict \<Rightarrow> cat_and_stem_at_every_level stemDict | _ \<Rightarrow> False"
      by (cases "map_of src' ''STEM''") auto
    from c2 obtain stemDict where "y = VDict stemDict" and c: "cat_and_stem_at_every_level stemDict"
      by (cases y) auto
    with y have st: "map_of src' ''STEM'' = Some (VDict stemDict)" by simp
    from Some v src have sv: "map_of d2 ''SRC'' = Some (VDict src')" by simp
    from "1.IH"[OF cat d2_def sv refl st refl c] obtain filled where
      "fill_def_values stemDict = Inr filled" by blast
    with cat sv st show ?thesis
      by (subst fill_def_values.simps) (simp add: d2_def[symmetric] Let_def)
  qed
qed

lemma fill_def_values_returns_only:
  "fill_def_values d = Inr d' \<Longrightarrow> cat_and_stem_at_every_level d"
proof (induction d arbitrary: d' rule: fill_def_values.induct)
  case (1 d)
  from "1.prems" obtain cat where cat: "map_of d ''CAT'' = Some cat"
    by (subst (asm) fill_def_values.simps) (auto split: option.splits)
  define d2 where "d2 = level_defaults cat d"
  have src: "map_of d2 ''SRC'' = map_of d ''SRC''"
    by (simp add: d2_def map_of_level_defaults_other)
  show ?case
  proof (cases "map_of d ''SRC''")
    case None
    with cat show ?thesis by (subst cat_and_stem_at_every_level.simps) simp
  next
    case (Some v)
    with "1.prems" cat src obtain src' stemDict filled where
      v: "v = VDict src'" and st: "map_of src' ''STEM'' = Some (VDict stemDict)" and
      fs: "fill_def_values stemDict = Inr filled"
      by (subst (asm) fill_def_values.simps)
         (auto simp: d2_def Let_def split: option.splits val.splits sum.splits)
    from Some v src have sv: "map_of d2 ''SRC'' = Some (VDict src')" by simp
    from "1.IH"[OF cat d2_def sv refl st refl fs]
    have "cat_and_stem_at_every_level stemDict" .
    with cat Some v st show ?thesis by (subst cat_and_stem_at_every_level.simps) simp
  qed
qed

lemma keeps_refl: "keeps v v"
proof (induction "size v" arbitrary: v rule: less_induct)
  case less
  show ?case
  proof (cases v)
    case (VDict a)
    have "case map_of a k of None \<Rightarrow> False
          | Some x \<Rightarrow> (case map_of a k of None \<Rightarrow> False | Some y \<Rightarrow> keeps x y)"
      if "k \<in> set (map fst a)" for k
    proof -
      from that obtain x where x: "map_of a k = Some x"
        by (cases "map_of a k") (auto simp: map_of_eq_None_iff)
      from map_of_size_less[OF x] VDict have "keeps x x" by (intro less) simp
      with x show ?thesis by simp
    qed
    with VDict show ?thesis by (simp add: keeps.simps(3))
  qed simp_all
qed

lemma keeps_dictI:
  assumes "\<And>k x. map_of a k = Some x \<Longrightarrow> \<exists>y. map_of b k = Some y \<and> keeps x y"
  shows "keeps (VDict a) (VDict b)"
proof -
  have "case map_of a k of None \<Rightarrow> False
        | Some x \<Rightarrow> (case map_of b k of None \<Rightarrow> False | Some y \<Rightarrow> keeps x y)"
    if "k \<in> set (map fst a)" for k
  proof -
    from that obtain x where x: "map_of a k = Some x"
      by (cases "map_of a k") (auto simp: map_of_eq_None_iff)
    from assms[OF x] x show ?thesis by auto
  qed
  then show ?thesis by (simp add: keeps.simps(3))
qed

lemma keeps_dictD:
  assumes "keeps (VDict a) (VDict b)" and x: "map_of a k = Some x"
  shows "\<exists>y. map_of b k = Some y \<and> keeps x y"
proof -
  from map_of_SomeD[OF x] have kin: "(k, x) \<in> set a" .
  from assms(1) have "\<forall>p \<in> set a. case map_of a (fst p) of None \<Rightarrow> False
        | Some x \<Rightarrow> (case map_of b (fst p) of None \<Rightarrow> False | Some y \<Rightarrow> keeps x y)"
    by (simp add: keeps.simps(3))
  from bspec[OF this kin] x show ?thesis by (cases "map_of b k") auto
qed

lemma fill_def_values_keeps:
  "fill_def_values d = Inr d' \<Longrightarrow> keeps (VDict d) (VDict d')"
proof (induction d arbitrary: d' rule: fill_def_values.induct)
  case (1 d)
  from "1.prems" obtain cat where cat: "map_of d ''CAT'' = Some cat"
    by (subst (asm) fill_def_values.simps) (auto split: option.splits)
  define d2 where "d2 = level_defaults cat d"
  have keep: "map_of d2 k = Some x" if "map_of d k = Some x" for k x
    unfolding d2_def using that by (rule map_of_level_defaults_keep)
  show ?case
  proof (cases "map_of d2 ''SRC''")
    case None
    with "1.prems" cat have d': "d' = d2"
      by (subst (asm) fill_def_values.simps) (simp add: d2_def Let_def)
    show ?thesis
      by (rule keeps_dictI) (auto simp: d' dest: keep intro: keeps_refl)
  next
    case (Some v)
    with "1.prems" cat obtain src stemDict filled where
      v: "v = VDict src" and st: "map_of src ''STEM'' = Some (VDict stemDict)" and
      fs: "fill_def_values stemDict = Inr filled" and
      d': "d' = AList.update ''SRC'' (VDict (AList.update ''STEM'' (VDict filled) src)) d2"
      by (subst (asm) fill_def_values.simps)
         (auto simp: d2_def Let_def split: option.splits val.splits sum.splits)
    from Some v have sv: "map_of d2 ''SRC'' = Some (VDict src)" by simp
    from "1.IH"[OF cat d2_def sv refl st refl fs]
    have ih: "keeps (VDict stemDict) (VDict filled)" .
    have inner: "keeps (VDict src) (VDict (AList.update ''STEM'' (VDict filled) src))"
    proof (rule keeps_dictI)
      fix k x assume "map_of src k = Some x"
      with st ih show "\<exists>y. map_of (AList.update ''STEM'' (VDict filled) src) k = Some y \<and> keeps x y"
        by (cases "k = ''STEM''") (auto simp: update_conv' intro: keeps_refl)
    qed
    show ?thesis
    proof (rule keeps_dictI)
      fix k x assume kx: "map_of d k = Some x"
      show "\<exists>y. map_of d' k = Some y \<and> keeps x y"
      proof (cases "k = ''SRC''")
        case True
        with keep[OF kx] sv have "x = VDict src" by simp
        with True inner show ?thesis by (simp add: d' update_conv')
      next
        case False
        with keep[OF kx] show ?thesis by (auto simp: d' update_conv' intro: keeps_refl)
      qed
    qed
  qed
qed


lemma level_defaults_new:
  assumes "map_of d ''CAT'' = Some cat" and "map_of d k = None"
    and "map_of (level_defaults cat d) k = Some v"
  shows "(cat = VStr ''NOUN''
            \<and> (k, v) \<in> set [(''CAS'', VStr ''NOM''), (''NUM'', VStr ''SING''),
                              (''ANP'', VStr ''0''), (''DEF'', VStr ''0''),
                              (''POSS'', VStr ''0'')])
         \<or> (cat = VStr ''ADJ'' \<and> k = ''CAS'' \<and> v = VStr ''NOM'')"
proof (cases "cat = VStr ''NOUN''")
  case True
  with assms(1) have "level_defaults cat d =
      set_default ''POSS'' (VStr ''0'')
        (set_default ''DEF'' (VStr ''0'')
          (set_default ''ANP'' (VStr ''0'')
            (set_default ''NUM'' (VStr ''SING'')
              (set_default ''CAS'' (VStr ''NOM'') d))))"
    by (simp add: level_defaults_def Let_def set_default_keep)
  with assms(2,3) True show ?thesis
    by (simp add: map_of_set_default split: if_splits)
next
  case False
  with assms show ?thesis
    by (auto simp: level_defaults_def Let_def map_of_set_default split: if_splits)
qed

text \<open>
  Claim C8, as the code has it. fill_def_values returns exactly on the attribute
  dictionaries that have a CAT entry at the top level and at every nested SRC.STEM
  level and in which, at each of these levels, the value of SRC (when the key is
  present) is a dictionary whose STEM is a dictionary. Whenever it returns, filling the
  result again returns the same dictionary, and the result has replaced nothing: every
  key of \<open>d\<close> is still there, at every level, a string or integer value is the one \<open>d\<close>
  had, and a key that is new at the top level is one of the defaults of the category
  (CAS = NOM, NUM = SING, ANP = 0, DEF = 0, POSS = 0 for NOUN; CAS = NOM for ADJ).
\<close>

theorem fill_def_values_idempotent:
  "(cat_and_stem_at_every_level d \<longleftrightarrow> (\<exists>d'. fill_def_values d = Inr d'))
   \<and> (fill_def_values d = Inr d'
        \<longrightarrow> fill_def_values d' = Inr d'
            \<and> keeps (VDict d) (VDict d')
            \<and> (\<forall>k v. map_of d k = Some v \<and> (\<forall>a. v \<noteq> VDict a) \<longrightarrow> map_of d' k = Some v)
            \<and> (\<forall>k v. map_of d k = None \<and> map_of d' k = Some v \<longrightarrow>
                  (map_of d ''CAT'' = Some (VStr ''NOUN'')
                     \<and> (k, v) \<in> set [(''CAS'', VStr ''NOM''), (''NUM'', VStr ''SING''),
                                       (''ANP'', VStr ''0''), (''DEF'', VStr ''0''),
                                       (''POSS'', VStr ''0'')])
                  \<or> (map_of d ''CAT'' = Some (VStr ''ADJ'') \<and> k = ''CAS''
                       \<and> v = VStr ''NOM'')))"
proof -
  have a: "cat_and_stem_at_every_level d \<longleftrightarrow> (\<exists>d'. fill_def_values d = Inr d')"
    using fill_def_values_returns fill_def_values_returns_only by blast
  have b: "fill_def_values d' = Inr d'" if "fill_def_values d = Inr d'"
    using that by (rule fill_def_values_again)
  have c: "keeps (VDict d) (VDict d')" if "fill_def_values d = Inr d'"
    using that by (rule fill_def_values_keeps)
  have e: "map_of d' k = Some v"
    if f: "fill_def_values d = Inr d'" and kv: "map_of d k = Some v" and nd: "\<forall>a. v \<noteq> VDict a"
    for k v
  proof -
    from keeps_dictD[OF c[OF f] kv] obtain y where y: "map_of d' k = Some y" "keeps v y"
      by blast
    with nd show ?thesis by (cases v) auto
  qed
  have g: "(map_of d ''CAT'' = Some (VStr ''NOUN'')
                     \<and> (k, v) \<in> set [(''CAS'', VStr ''NOM''), (''NUM'', VStr ''SING''),
                                       (''ANP'', VStr ''0''), (''DEF'', VStr ''0''),
                                       (''POSS'', VStr ''0'')])
                  \<or> (map_of d ''CAT'' = Some (VStr ''ADJ'') \<and> k = ''CAS''
                       \<and> v = VStr ''NOM'')"
    if f: "fill_def_values d = Inr d'" and kn: "map_of d k = None" and kv: "map_of d' k = Some v"
    for k v
  proof -
    from f obtain cat where cat: "map_of d ''CAT'' = Some cat"
      by (subst (asm) fill_def_values.simps) (auto split: option.splits)
    have src: "map_of (level_defaults cat d) ''SRC'' = map_of d ''SRC''"
      by (simp add: map_of_level_defaults_other)
    from f cat have "d' = level_defaults cat d
        \<or> (\<exists>x. map_of d ''SRC'' \<noteq> None \<and> d' = AList.update ''SRC'' x (level_defaults cat d))"
      by (subst (asm) fill_def_values.simps)
         (auto simp: Let_def src split: option.splits val.splits sum.splits)
    with kn kv have "map_of (level_defaults cat d) k = Some v"
      by (auto simp: update_conv' split: if_splits)
    from level_defaults_new[OF cat kn this] cat show ?thesis by simp
  qed
  from a b c e g show ?thesis by blast
qed

theorem fill_def_values_idempotent_witness:
  "cat_and_stem_at_every_level
     [(''CAT'', VStr ''ADJ''), (''MOD'', VStr ''FELT''),
      (''SRC'', VDict [(''DERIV'', VDict [(''CAT'', VStr ''IGE'')]),
                       (''STEM'', VDict [(''CAT'', VStr ''NOUN''), (''NUM'', VStr ''PLUR'')])])]
   \<and> (\<exists>d'. fill_def_values
     [(''CAT'', VStr ''ADJ''), (''MOD'', VStr ''FELT''),
      (''SRC'', VDict [(''DERIV'', VDict [(''CAT'', VStr ''IGE'')]),
                       (''STEM'', VDict [(''CAT'', VStr ''NOUN''), (''NUM'', VStr ''PLUR'')])])] = Inr d')
   \<and> fill_def_values
     [(''CAT'', VStr ''ADJ''), (''MOD'', VStr ''FELT''),
      (''SRC'', VDict [(''DERIV'', VDict [(''CAT'', VStr ''IGE'')]),
                       (''STEM'', VDict [(''CAT'', VStr ''NOUN''), (''NUM'', VStr ''PLUR'')])])]
     = Inr [(''CAT'', VStr ''ADJ''), (''MOD'', VStr ''FELT''),
      (''SRC'', VDict [(''DERIV'', VDict [(''CAT'', VStr ''IGE'')]),
                       (''STEM'', VDict [(''CAT'', VStr ''NOUN''), (''NUM'', VStr ''PLUR''),
                                         (''CAS'', VStr ''NOM''), (''ANP'', VStr ''0''),
                                         (''DEF'', VStr ''0''), (''POSS'', VStr ''0'')])]),
      (''CAS'', VStr ''NOM'')]
   \<and> fill_def_values
     [(''CAT'', VStr ''ADJ''), (''MOD'', VStr ''FELT''),
      (''SRC'', VDict [(''DERIV'', VDict [(''CAT'', VStr ''IGE'')]),
                       (''STEM'', VDict [(''CAT'', VStr ''NOUN''), (''NUM'', VStr ''PLUR''),
                                         (''CAS'', VStr ''NOM''), (''ANP'', VStr ''0''),
                                         (''DEF'', VStr ''0''), (''POSS'', VStr ''0'')])]),
      (''CAS'', VStr ''NOM'')]
     = Inr [(''CAT'', VStr ''ADJ''), (''MOD'', VStr ''FELT''),
      (''SRC'', VDict [(''DERIV'', VDict [(''CAT'', VStr ''IGE'')]),
                       (''STEM'', VDict [(''CAT'', VStr ''NOUN''), (''NUM'', VStr ''PLUR''),
                                         (''CAS'', VStr ''NOM''), (''ANP'', VStr ''0''),
                                         (''DEF'', VStr ''0''), (''POSS'', VStr ''0'')])]),
      (''CAS'', VStr ''NOM'')]
   \<and> keeps (VDict
     [(''CAT'', VStr ''ADJ''), (''MOD'', VStr ''FELT''),
      (''SRC'', VDict [(''DERIV'', VDict [(''CAT'', VStr ''IGE'')]),
                       (''STEM'', VDict [(''CAT'', VStr ''NOUN''), (''NUM'', VStr ''PLUR'')])])])
     (VDict [(''CAT'', VStr ''ADJ''), (''MOD'', VStr ''FELT''),
      (''SRC'', VDict [(''DERIV'', VDict [(''CAT'', VStr ''IGE'')]),
                       (''STEM'', VDict [(''CAT'', VStr ''NOUN''), (''NUM'', VStr ''PLUR''),
                                         (''CAS'', VStr ''NOM''), (''ANP'', VStr ''0''),
                                         (''DEF'', VStr ''0''), (''POSS'', VStr ''0'')])]),
      (''CAS'', VStr ''NOM'')])
   \<and> map_of
     [(''CAT'', VStr ''ADJ''), (''MOD'', VStr ''FELT''),
      (''SRC'', VDict [(''DERIV'', VDict [(''CAT'', VStr ''IGE'')]),
                       (''STEM'', VDict [(''CAT'', VStr ''NOUN''), (''NUM'', VStr ''PLUR'')])])] ''MOD'' = Some (VStr ''FELT'')
   \<and> map_of
     [(''CAT'', VStr ''ADJ''), (''MOD'', VStr ''FELT''),
      (''SRC'', VDict [(''DERIV'', VDict [(''CAT'', VStr ''IGE'')]),
                       (''STEM'', VDict [(''CAT'', VStr ''NOUN''), (''NUM'', VStr ''PLUR''),
                                         (''CAS'', VStr ''NOM''), (''ANP'', VStr ''0''),
                                         (''DEF'', VStr ''0''), (''POSS'', VStr ''0'')])]),
      (''CAS'', VStr ''NOM'')] ''MOD'' = Some (VStr ''FELT'')
   \<and> map_of
     [(''CAT'', VStr ''ADJ''), (''MOD'', VStr ''FELT''),
      (''SRC'', VDict [(''DERIV'', VDict [(''CAT'', VStr ''IGE'')]),
                       (''STEM'', VDict [(''CAT'', VStr ''NOUN''), (''NUM'', VStr ''PLUR'')])])] ''CAS'' = None
   \<and> map_of
     [(''CAT'', VStr ''ADJ''), (''MOD'', VStr ''FELT''),
      (''SRC'', VDict [(''DERIV'', VDict [(''CAT'', VStr ''IGE'')]),
                       (''STEM'', VDict [(''CAT'', VStr ''NOUN''), (''NUM'', VStr ''PLUR''),
                                         (''CAS'', VStr ''NOM''), (''ANP'', VStr ''0''),
                                         (''DEF'', VStr ''0''), (''POSS'', VStr ''0'')])]),
      (''CAS'', VStr ''NOM'')] ''CAS'' = Some (VStr ''NOM'')
   \<and> map_of
     [(''CAT'', VStr ''ADJ''), (''MOD'', VStr ''FELT''),
      (''SRC'', VDict [(''DERIV'', VDict [(''CAT'', VStr ''IGE'')]),
                       (''STEM'', VDict [(''CAT'', VStr ''NOUN''), (''NUM'', VStr ''PLUR'')])])] ''CAT'' = Some (VStr ''ADJ'')"
proof -
  let ?D = "[(''CAT'', VStr ''ADJ''), (''MOD'', VStr ''FELT''),
      (''SRC'', VDict [(''DERIV'', VDict [(''CAT'', VStr ''IGE'')]),
                       (''STEM'', VDict [(''CAT'', VStr ''NOUN''), (''NUM'', VStr ''PLUR'')])])]"
  let ?D' = "[(''CAT'', VStr ''ADJ''), (''MOD'', VStr ''FELT''),
      (''SRC'', VDict [(''DERIV'', VDict [(''CAT'', VStr ''IGE'')]),
                       (''STEM'', VDict [(''CAT'', VStr ''NOUN''), (''NUM'', VStr ''PLUR''),
                                         (''CAS'', VStr ''NOM''), (''ANP'', VStr ''0''),
                                         (''DEF'', VStr ''0''), (''POSS'', VStr ''0'')])]),
      (''CAS'', VStr ''NOM'')]"
  have h1: "cat_and_stem_at_every_level ?D" by code_simp
  have h2: "fill_def_values ?D = Inr ?D'" by code_simp
  have h3: "map_of ?D ''MOD'' = Some (VStr ''FELT'') \<and> (\<forall>a. VStr ''FELT'' \<noteq> VDict a)"
    by simp
  have h4: "map_of ?D ''CAS'' = None \<and> map_of ?D' ''CAS'' = Some (VStr ''NOM'')" by simp
  note T = fill_def_values_idempotent[of ?D ?D']
  from T h1 have c0: "\<exists>d'. fill_def_values ?D = Inr d'" by blast
  from T h2 have c1: "fill_def_values ?D' = Inr ?D'" by blast
  from T h2 have c2: "keeps (VDict ?D) (VDict ?D')" by blast
  from T h2 h3 have c3: "map_of ?D' ''MOD'' = Some (VStr ''FELT'')" by blast
  from T h2 h4 have c4: "(map_of ?D ''CAT'' = Some (VStr ''NOUN'')
        \<and> (''CAS'', VStr ''NOM'') \<in> set [(''CAS'', VStr ''NOM''), (''NUM'', VStr ''SING''),
                                       (''ANP'', VStr ''0''), (''DEF'', VStr ''0''),
                                       (''POSS'', VStr ''0'')])
      \<or> (map_of ?D ''CAT'' = Some (VStr ''ADJ'') \<and> ''CAS'' = ''CAS''
            \<and> VStr ''NOM'' = VStr ''NOM'')"
    by blast
  then have c5: "map_of ?D ''CAT'' = Some (VStr ''ADJ'')" by simp
  from h1 c0 h2 c1 c2 h3 c3 h4 c5 show ?thesis by blast
qed

text \<open>
  Claim C8 as stated (every dictionary with a CAT entry at the top level and at every
  nested SRC.STEM level) does not hold: the dictionary CAT = A, SRC = 1 has a CAT entry
  at the top level and no nested SRC.STEM level, kr_to_dictionary builds it from the
  accepted token \<^verbatim>\<open>x/A<SRC>\<close>, and line 231 raises TypeError on it, so that filling it
  once or twice returns nothing; on CAT = X, SRC = (the empty dictionary) the same line
  raises KeyError.
\<close>

theorem fill_def_values_src_not_record:
  "map_of [(''CAT'', VStr ''A''), (''SRC'', VInt 1)] ''CAT'' = Some (VStr ''A'')
   \<and> fill_def_values [(''CAT'', VStr ''A''), (''SRC'', VInt 1)] = Inl TypeError
   \<and> analyzeConstituent ''x/A<SRC>''
       = ([], Inr \<lparr>stem = ''x'', krNodes = [Node ''A'' [Node ''SRC'' []]], kepzos = []\<rparr>)
   \<and> kr_to_dictionary ''x/A<SRC>'' = ([], Inl TypeError)
   \<and> map_of [(''CAT'', VStr ''X''), (''SRC'', VDict [])] ''CAT'' = Some (VStr ''X'')
   \<and> fill_def_values [(''CAT'', VStr ''X''), (''SRC'', VDict [])] = Inl (KeyError ''STEM'')"
  by code_simp

end
